theory Spec2Isabelle
  imports Complex_Main "HOL-Library.Log_Nat" "HOL-Library.AList"
begin

section \<open>The slicing and elaboration driver (script.py) and its consumers\<close>

text \<open>
  A shallow embedding of \<^verbatim>\<open>src/script.py\<close> (the driver), of the scan of
  \<^verbatim>\<open>src/slice_to_json.py\<close> and of \<^verbatim>\<open>parse_elapsed_to_seconds\<close> of
  \<^verbatim>\<open>src/chart.py\<close>.

  Python values are modelled as follows. A \<^verbatim>\<open>str\<close> is a list of Unicode code points
  (\<open>ustr\<close>), a \<^verbatim>\<open>bytes\<close> object and the contents of a file are lists of 8-bit
  characters (\<open>bytes\<close>); the two differ as soon as a text leaves ASCII, and
  \<^verbatim>\<open>append_json_array\<close> mixes them. An \<^verbatim>\<open>int\<close> is an \<open>int\<close>. An exception is a
  value of \<open>py_error\<close>, returned on the left of a sum.
\<close>

subsection \<open>Strings\<close>

type_synonym ustr = "nat list"
type_synonym bytes = "char list"
type_synonym path = "nat list"

definition u :: "string \<Rightarrow> ustr" where
  \<comment> \<open>an ASCII literal of the source as a \<^verbatim>\<open>str\<close>\<close>
  "u s = map of_char s"

datatype py_error =
    FileNotFoundError | FileExistsError | NotADirectoryError | PermissionError
  | IsADirectoryError | SameFileError | ShutilError
  | TypeError | ValueError | AttributeError | OverflowError | ZeroDivisionError
  | UnicodeEncodeError | UnicodeDecodeError | JSONDecodeError

fun startswith :: "'a list \<Rightarrow> 'a list \<Rightarrow> bool" where
  "startswith s [] = True"
| "startswith [] (p # ps) = False"
| "startswith (x # xs) (p # ps) = (x = p \<and> startswith xs ps)"

fun py_in :: "'a list \<Rightarrow> 'a list \<Rightarrow> bool" where
  \<comment> \<open>\<^verbatim>\<open>sub in s\<close>\<close>
  "py_in sub [] = startswith [] sub"
| "py_in sub (x # xs) = (startswith (x # xs) sub \<or> py_in sub xs)"

function py_count :: "'a list \<Rightarrow> 'a list \<Rightarrow> nat" where
  \<comment> \<open>\<^verbatim>\<open>s.count(sub)\<close>: occurrences that do not overlap, from the left\<close>
  "py_count s sub =
     (if sub = [] then Suc (length s)
      else if s = [] then 0
      else if startswith s sub then Suc (py_count (drop (length sub) s) sub)
      else py_count (tl s) sub)"
  by pat_completeness auto
termination
  by (relation "measure (\<lambda>(s, sub). length s)") (auto simp: neq_Nil_conv)

fun py_rfind :: "'a \<Rightarrow> 'a list \<Rightarrow> nat option" where
  \<comment> \<open>\<^verbatim>\<open>s.rfind(c)\<close> for a one-character \<^verbatim>\<open>c\<close>; \<open>None\<close> is Python's \<open>-1\<close>\<close>
  "py_rfind c [] = None"
| "py_rfind c (x # xs) =
     (case py_rfind c xs of
        Some i \<Rightarrow> Some (Suc i)
      | None \<Rightarrow> if x = c then Some 0 else None)"

definition py_isspace :: "nat \<Rightarrow> bool" where
  \<comment> \<open>\<^verbatim>\<open>str.isspace\<close> of one code point, which is also what \<^verbatim>\<open>\s\<close> matches in a
      \<^verbatim>\<open>str\<close> pattern\<close>
  "py_isspace c =
     ((9 \<le> c \<and> c \<le> 13) \<or> (28 \<le> c \<and> c \<le> 32) \<or> c = 133 \<or> c = 160 \<or> c = 5760
      \<or> (8192 \<le> c \<and> c \<le> 8202) \<or> c = 8232 \<or> c = 8233 \<or> c = 8239 \<or> c = 8287
      \<or> c = 12288)"

fun digits :: "nat \<Rightarrow> ustr" where
  \<comment> \<open>the decimal digits of a natural number, as \<^verbatim>\<open>str(n)\<close> writes them\<close>
  "digits n = (if n < 10 then [48 + n] else digits (n div 10) @ [48 + n mod 10])"

declare digits.simps [simp del]

definition py_str :: "int \<Rightarrow> ustr" where
  \<comment> \<open>the text of \<^verbatim>\<open>str(i)\<close> when it returns\<close>
  "py_str i = (if i < 0 then 45 # digits (nat (- i)) else digits (nat i))"

definition int_repr :: "int \<Rightarrow> py_error + ustr" where
  \<comment> \<open>\<^verbatim>\<open>str(i)\<close>, also \<^verbatim>\<open>f"{i}"\<close> and \<^verbatim>\<open>int.__repr__\<close>: CPython refuses to write an
      \<^verbatim>\<open>int\<close> of more than 4300 digits (the default of \<^verbatim>\<open>sys.set_int_max_str_digits\<close>)\<close>
  "int_repr i = (if 4300 < length (digits (nat \<bar>i\<bar>)) then Inl ValueError else Inr (py_str i))"

subsection \<open>UTF-8\<close>

text \<open>
  CPython's UTF-8 codec. \<open>utf8_head b bs\<close> reads the sequence that starts with the
  byte \<open>b\<close>: it returns the code point, if the sequence is valid, and how many bytes of
  \<open>bs\<close> belong to the sequence or to the error range the decoder reports. With
  \<^verbatim>\<open>errors="ignore"\<close> the error range is dropped; with the default
  \<^verbatim>\<open>errors="strict"\<close> it raises.
\<close>

definition is_cont :: "char \<Rightarrow> bool" where
  "is_cont b = (128 \<le> (of_char b :: nat) \<and> (of_char b :: nat) < 192)"

definition cont_bits :: "char \<Rightarrow> nat" where
  "cont_bits b = of_char b - 128"

definition utf8_head :: "char \<Rightarrow> bytes \<Rightarrow> nat option \<times> nat" where
  "utf8_head b bs =
     (let c = (of_char b :: nat) in
      if c < 128 then (Some c, 0)
      else if c < 194 then (None, 0)
      else if c < 224 then
        (case bs of
           [] \<Rightarrow> (None, 0)
         | b2 # _ \<Rightarrow>
             if is_cont b2 then (Some ((c - 192) * 64 + cont_bits b2), 1) else (None, 0))
      else if c < 240 then
        (case bs of
           [] \<Rightarrow> (None, 0)
         | b2 # r2 \<Rightarrow>
             if \<not> is_cont b2 \<or> (if (of_char b2 :: nat) < 160 then c = 224 else c = 237)
             then (None, 0)
             else (case r2 of
                     [] \<Rightarrow> (None, 1)
                   | b3 # _ \<Rightarrow>
                       if is_cont b3
                       then (Some ((c - 224) * 4096 + cont_bits b2 * 64 + cont_bits b3), 2)
                       else (None, 1)))
      else if c < 245 then
        (case bs of
           [] \<Rightarrow> (None, 0)
         | b2 # r2 \<Rightarrow>
             if \<not> is_cont b2 \<or> (if (of_char b2 :: nat) < 144 then c = 240 else c = 244)
             then (None, 0)
             else (case r2 of
                     [] \<Rightarrow> (None, 1)
                   | b3 # r3 \<Rightarrow>
                       if \<not> is_cont b3 then (None, 1)
                       else (case r3 of
                               [] \<Rightarrow> (None, 2)
                             | b4 # _ \<Rightarrow>
                                 if is_cont b4
                                 then (Some ((c - 240) * 262144 + cont_bits b2 * 4096
                                             + cont_bits b3 * 64 + cont_bits b4), 3)
                                 else (None, 2))))
      else (None, 0))"

fun utf8_decode_ignore :: "bytes \<Rightarrow> ustr" where
  \<comment> \<open>\<^verbatim>\<open>b.decode("utf-8", errors="ignore")\<close>\<close>
  "utf8_decode_ignore [] = []"
| "utf8_decode_ignore (b # bs) =
     (case utf8_head b bs of
        (Some cp, k) \<Rightarrow> cp # utf8_decode_ignore (drop k bs)
      | (None, k) \<Rightarrow> utf8_decode_ignore (drop k bs))"

fun utf8_decode_strict :: "bytes \<Rightarrow> py_error + ustr" where
  \<comment> \<open>\<^verbatim>\<open>b.decode("utf-8")\<close>\<close>
  "utf8_decode_strict [] = Inr []"
| "utf8_decode_strict (b # bs) =
     (case utf8_head b bs of
        (Some cp, k) \<Rightarrow>
          (case utf8_decode_strict (drop k bs) of
             Inl e \<Rightarrow> Inl e
           | Inr s \<Rightarrow> Inr (cp # s))
      | (None, k) \<Rightarrow> Inl UnicodeDecodeError)"

definition utf8_encode_cp :: "nat \<Rightarrow> bytes option" where
  "utf8_encode_cp c =
     (if c < 128 then Some [char_of c]
      else if c < 2048 then Some [char_of (192 + c div 64), char_of (128 + c mod 64)]
      else if c < 65536 then
        (if 55296 \<le> c \<and> c \<le> 57343 then None
         else Some [char_of (224 + c div 4096), char_of (128 + c div 64 mod 64),
                    char_of (128 + c mod 64)])
      else if c < 1114112 then
        Some [char_of (240 + c div 262144), char_of (128 + c div 4096 mod 64),
              char_of (128 + c div 64 mod 64), char_of (128 + c mod 64)]
      else None)"

fun utf8_encode :: "ustr \<Rightarrow> py_error + bytes" where
  \<comment> \<open>\<^verbatim>\<open>s.encode("utf-8")\<close>: a lone surrogate raises\<close>
  "utf8_encode [] = Inr []"
| "utf8_encode (c # cs) =
     (case utf8_encode_cp c of
        None \<Rightarrow> Inl UnicodeEncodeError
      | Some bs \<Rightarrow> (case utf8_encode cs of Inl e \<Rightarrow> Inl e | Inr r \<Rightarrow> Inr (bs @ r)))"

subsection \<open>Paths and files\<close>

text \<open>
  The file system as far as the driver reads and writes it: a path holds nothing, a
  directory, or a regular file with its permission bits and contents. Paths are POSIX
  paths and name a file as they are written: symbolic links, the components
  \<^verbatim>\<open>.\<close> and \<^verbatim>\<open>..\<close> and doubled separators are not resolved. There is one file system, and
  a directory can always be searched and written; a relative path is relative to a
  working directory that exists. \<^verbatim>\<open>open(p, "w")\<close> is only used after the directory of
  \<open>p\<close> has been created, so it does not look at the directory again.
\<close>

datatype fnode = Dir | File (readable: bool) (writable: bool) (contents: bytes)

type_synonym fs = "path \<Rightarrow> fnode option"

definition rstrip_sep :: "path \<Rightarrow> path" where
  \<comment> \<open>\<^verbatim>\<open>p.rstrip("/")\<close>\<close>
  "rstrip_sep p = rev (dropWhile (\<lambda>c. c = 47) (rev p))"

definition py_split :: "path \<Rightarrow> path \<times> path" where
  \<comment> \<open>\<^verbatim>\<open>os.path.split\<close>: the tail is what follows the last separator; the head loses
      its trailing separators unless it is made of separators only\<close>
  "py_split p =
     (let tail = rev (takeWhile (\<lambda>c. c \<noteq> 47) (rev p));
          head = take (length p - length tail) p
      in (if list_all (\<lambda>c. c = 47) head then head else rstrip_sep head, tail))"

definition dirname :: "path \<Rightarrow> path" where
  \<comment> \<open>\<^verbatim>\<open>os.path.dirname\<close>\<close>
  "dirname p = fst (py_split p)"

definition basename :: "path \<Rightarrow> path" where
  \<comment> \<open>\<^verbatim>\<open>os.path.basename\<close>\<close>
  "basename p = snd (py_split p)"

definition path_join :: "path \<Rightarrow> path \<Rightarrow> path" where
  \<comment> \<open>\<^verbatim>\<open>os.path.join(a, b)\<close>\<close>
  "path_join a b =
     (if b \<noteq> [] \<and> hd b = 47 then b
      else if a = [] \<or> last a = 47 then a @ b
      else a @ 47 # b)"

definition path_exists :: "fs \<Rightarrow> path \<Rightarrow> bool" where
  \<comment> \<open>\<^verbatim>\<open>os.path.exists\<close>\<close>
  "path_exists f p = (f p \<noteq> None)"

definition isfile :: "fs \<Rightarrow> path \<Rightarrow> bool" where
  \<comment> \<open>\<^verbatim>\<open>os.path.isfile\<close>\<close>
  "isfile f p = (case f p of Some (File r w d) \<Rightarrow> True | _ \<Rightarrow> False)"

definition isdir :: "fs \<Rightarrow> path \<Rightarrow> bool" where
  \<comment> \<open>\<^verbatim>\<open>os.path.isdir\<close>\<close>
  "isdir f p = (f p = Some Dir)"

function makedirs :: "fs \<Rightarrow> path \<Rightarrow> py_error + fs" where
  \<comment> \<open>\<^verbatim>\<open>os.makedirs(name, exist_ok=True)\<close>: the empty name is refused by \<^verbatim>\<open>mkdir\<close>, a
      directory that is there is left alone, a regular file in the way is an error, and
      a missing directory is made after the missing ones above it\<close>
  "makedirs f name =
     (if name = [] then Inl FileNotFoundError
      else case f name of
             Some Dir \<Rightarrow> Inr f
           | Some (File r w d) \<Rightarrow> Inl FileExistsError
           | None \<Rightarrow>
               (if dirname name = [] \<or> dirname name = name then Inr (f(name \<mapsto> Dir))
                else case makedirs f (dirname name) of
                       Inl e \<Rightarrow> Inl (if e = FileExistsError then NotADirectoryError else e)
                     | Inr f1 \<Rightarrow> Inr (f1(name \<mapsto> Dir))))"
  by pat_completeness auto
termination
proof (relation "measure (\<lambda>(f, name). length name)")
  show "wf (measure (\<lambda>(f, name). length name))" by simp
next
  fix f :: fs and name :: path
  assume ne: "\<not> (dirname name = [] \<or> dirname name = name)"
  define tail where "tail = rev (takeWhile (\<lambda>c. c \<noteq> 47) (rev name))"
  define head where "head = take (length name - length tail) name"
  have d: "dirname name = (if list_all (\<lambda>c. c = 47) head then head else rstrip_sep head)"
    by (simp add: dirname_def py_split_def Let_def tail_def head_def)
  have "length (rstrip_sep head) \<le> length head"
    by (simp add: rstrip_sep_def) (metis length_dropWhile_le length_rev)
  then have le: "length (dirname name) \<le> length head" by (simp add: d)
  have hl: "length head \<le> length name" by (simp add: head_def)
  have "length (dirname name) \<noteq> length name"
  proof
    assume eq: "length (dirname name) = length name"
    with le hl have "length head = length name" by linarith
    then have hn: "head = name" by (simp add: head_def)
    have "length (rstrip_sep head) = length head \<Longrightarrow> rstrip_sep head = head"
      by (simp add: rstrip_sep_def)
        (metis dropWhile_eq_self_iff length_dropWhile_le length_rev rev_rev_ident
          dropWhile_eq_Nil_conv length_0_conv takeWhile_dropWhile_id length_append
          add_cancel_left_left takeWhile_eq_Nil_iff self_append_conv2)
    with eq d hn have "dirname name = name" by (auto split: if_splits)
    with ne show False by simp
  qed
  with le hl have "length (dirname name) < length name" by linarith
  then show "((f, dirname name), (f, name)) \<in> measure (\<lambda>(f, name). length name)" by simp
qed

declare makedirs.simps [simp del]

definition open_read :: "fs \<Rightarrow> path \<Rightarrow> py_error + bytes" where
  \<comment> \<open>\<^verbatim>\<open>open(p, "r")\<close> or \<^verbatim>\<open>open(p, "rb")\<close> and reading to the end\<close>
  "open_read f p =
     (case f p of
        None \<Rightarrow> Inl FileNotFoundError
      | Some Dir \<Rightarrow> Inl IsADirectoryError
      | Some (File r w d) \<Rightarrow> if r then Inr d else Inl PermissionError)"

definition open_write :: "fs \<Rightarrow> path \<Rightarrow> py_error + fs" where
  \<comment> \<open>\<^verbatim>\<open>open(p, "w")\<close>: the file is created or truncated\<close>
  "open_write f p =
     (case f p of
        None \<Rightarrow> Inr (f(p \<mapsto> File True True []))
      | Some Dir \<Rightarrow> Inl IsADirectoryError
      | Some (File r w d) \<Rightarrow> if w then Inr (f(p \<mapsto> File r w [])) else Inl PermissionError)"

definition put_contents :: "fs \<Rightarrow> path \<Rightarrow> bytes \<Rightarrow> fs" where
  \<comment> \<open>what an open file holds once it is closed\<close>
  "put_contents f p d =
     (case f p of
        Some (File r w _) \<Rightarrow> f(p \<mapsto> File r w d)
      | _ \<Rightarrow> f)"

definition getsize :: "fs \<Rightarrow> path \<Rightarrow> py_error + nat" where
  \<comment> \<open>\<^verbatim>\<open>os.path.getsize\<close>\<close>
  "getsize f p =
     (case f p of
        None \<Rightarrow> Inl FileNotFoundError
      | Some Dir \<Rightarrow> Inr 0
      | Some (File r w d) \<Rightarrow> Inr (length d))"

definition copy2 :: "fs \<Rightarrow> path \<Rightarrow> path \<Rightarrow> py_error + fs" where
  \<comment> \<open>\<^verbatim>\<open>shutil.copy2(src, dst)\<close>: into \<open>dst\<close> when it is a directory; the contents and
      the permission bits are copied\<close>
  "copy2 f src dst =
     (let dst1 = (if isdir f dst then path_join dst (basename src) else dst)
      in if src = dst1 \<and> path_exists f src then Inl SameFileError
         else case open_read f src of
                Inl e \<Rightarrow> Inl e
              | Inr d \<Rightarrow>
                  (case open_write f dst1 of
                     Inl e \<Rightarrow> Inl e
                   | Inr f1 \<Rightarrow>
                       Inr (f1(dst1 \<mapsto> File True (case f src of
                                                       Some (File r w x) \<Rightarrow> w
                                                     | _ \<Rightarrow> True) d))))"

definition move_file :: "fs \<Rightarrow> path \<Rightarrow> path \<Rightarrow> py_error + fs" where
  \<comment> \<open>\<^verbatim>\<open>shutil.move(src, dst)\<close> for a regular file \<open>src\<close>: into \<open>dst\<close> when it is a
      directory, unless the name is taken there; otherwise \<^verbatim>\<open>os.rename\<close>, which
      replaces a regular file\<close>
  "move_file f src dst =
     (let real_dst = (if isdir f dst then path_join dst (basename (rstrip_sep src)) else dst)
      in if isdir f dst \<and> path_exists f real_dst then Inl ShutilError
         else case f src of
                None \<Rightarrow> Inl FileNotFoundError
              | Some n \<Rightarrow>
                  if real_dst = src then Inr f
                  else Inr ((f(src := None))(real_dst \<mapsto> n)))"

definition remove_quietly :: "fs \<Rightarrow> path \<Rightarrow> fs" where
  \<comment> \<open>\<^verbatim>\<open>os.remove(p)\<close> with \<^verbatim>\<open>OSError\<close> caught: a regular file goes, anything else stays\<close>
  "remove_quietly f p = (if isfile f p then f(p := None) else f)"
subsection \<open>Floats and human_elapsed\<close>

text \<open>
  A Python \<^verbatim>\<open>float\<close> is an IEEE 754 double: \<open>Fin m e\<close> is the double of value
  \<open>m \<sqdot> 2\<^sup>e\<close>, beside the infinities and NaN (the sign of zero is not kept).
  \<open>round_frac a b\<close> is the double nearest to the fraction \<open>a / b\<close> (for \<open>0 < b\<close>), ties
  to even, with the subnormal range and overflow. \<^verbatim>\<open>int / int\<close> is the correctly
  rounded quotient and raises \<^verbatim>\<open>OverflowError\<close> when it does not fit;
  \<^verbatim>\<open>f"{x:.2f}"\<close> is the correctly rounded decimal expansion of the double.
\<close>

datatype pyfloat = Fin int int | PosInf | NegInf | NaN

fun bit_length :: "nat \<Rightarrow> nat" where
  \<comment> \<open>\<^verbatim>\<open>int.bit_length\<close>\<close>
  "bit_length n = (if n = 0 then 0 else Suc (bit_length (n div 2)))"

declare bit_length.simps [simp del]

definition rhe_frac :: "int \<Rightarrow> int \<Rightarrow> int" where
  \<comment> \<open>\<open>a / b\<close> rounded to the nearest integer, half to even (\<open>0 < b\<close>)\<close>
  "rhe_frac a b =
     (let q = a div b; r = a mod b
      in if 2 * r < b then q else if b < 2 * r then q + 1
         else if even q then q else q + 1)"

definition ilog2_frac :: "int \<Rightarrow> int \<Rightarrow> int" where
  \<comment> \<open>\<open>\<lfloor>log\<^sub>2 (a / b)\<rfloor>\<close> for \<open>0 < a\<close> and \<open>0 < b\<close>\<close>
  "ilog2_frac a b =
     (let k = int (bit_length (nat a)) - int (bit_length (nat b))
      in if (if 0 \<le> k then b * 2 ^ nat k \<le> a else b \<le> a * 2 ^ nat (- k)) then k else k - 1)"

definition round_frac :: "int \<Rightarrow> int \<Rightarrow> pyfloat" where
  "round_frac a b =
     (if a = 0 then Fin 0 0
      else let n = \<bar>a\<bar>;
               s = max (ilog2_frac n b) (- 1022) - 52;
               m = (if 0 \<le> s then rhe_frac n (b * 2 ^ nat s) else rhe_frac (n * 2 ^ nat (- s)) b)
           in if 0 \<le> s \<and> 2 ^ 1024 \<le> m * 2 ^ nat s then (if 0 < a then PosInf else NegInf)
              else Fin (if 0 < a then m else - m) s)"

definition int_truediv :: "int \<Rightarrow> int \<Rightarrow> py_error + pyfloat" where
  \<comment> \<open>\<^verbatim>\<open>a / b\<close> on two \<^verbatim>\<open>int\<close>s\<close>
  "int_truediv a b =
     (if b = 0 then Inl ZeroDivisionError
      else case (if 0 < b then round_frac a b else round_frac (- a) (- b)) of
             Fin m e \<Rightarrow> Inr (Fin m e)
           | _ \<Rightarrow> Inl OverflowError)"

definition zero_pad :: "nat \<Rightarrow> ustr \<Rightarrow> ustr" where
  "zero_pad w ds = replicate (w - length ds) 48 @ ds"

definition format_f :: "nat \<Rightarrow> pyfloat \<Rightarrow> ustr" where
  \<comment> \<open>\<^verbatim>\<open>f"{x:.<prec>f}"\<close>\<close>
  "format_f prec x =
     (case x of
        Fin m e \<Rightarrow>
          (let n = nat (if 0 \<le> e then \<bar>m\<bar> * 2 ^ nat e * 10 ^ prec
                        else rhe_frac (\<bar>m\<bar> * 10 ^ prec) (2 ^ nat (- e)));
               body = digits (n div 10 ^ prec)
                      @ (if prec = 0 then [] else 46 # zero_pad prec (digits (n mod 10 ^ prec)))
           in if m < 0 then 45 # body else body)
      | PosInf \<Rightarrow> u ''inf''
      | NegInf \<Rightarrow> u ''-inf''
      | NaN \<Rightarrow> u ''nan'')"

definition human_elapsed :: "int \<Rightarrow> py_error + ustr" where
  "human_elapsed ns =
     (if ns < 1000000 then
        (case int_repr ns of
           Inl e \<Rightarrow> Inl e
         | Inr s \<Rightarrow> Inr (s @ u ''ns''))
      else if ns < 1000000000 then
        (case int_truediv ns 1000000 of
           Inl e \<Rightarrow> Inl e
         | Inr x \<Rightarrow> Inr (format_f 0 x @ u ''ms''))
      else if ns < 60000000000 then
        (case int_truediv ns 1000000000 of
           Inl e \<Rightarrow> Inl e
         | Inr x \<Rightarrow> Inr (format_f 2 x @ u ''s''))
      else
        (case int_truediv ns 60000000000 of
           Inl e \<Rightarrow> Inl e
         | Inr x \<Rightarrow> Inr (format_f 2 x @ u ''m'')))"

subsection \<open>holes_in_alethe\<close>

text \<open>
  \<^verbatim>\<open>STEP_NAME_RE = \(step\s+([^\s\)]+)\<close>. The two character classes are disjoint, so
  backtracking never changes a match: at a position the pattern matches when the text
  there is \<^verbatim>\<open>(step\<close>, then at least one white space character, then at least one
  character that is neither white space nor \<^verbatim>\<open>)\<close>; group 1 is the longest run of
  such characters. \<^verbatim>\<open>search\<close> takes the leftmost position that matches.
\<close>

definition HOLE_MARKER :: ustr where
  "HOLE_MARKER = u ''TRUST_THEORY_REWRITE''"

definition name_char :: "nat \<Rightarrow> bool" where
  "name_char c = (\<not> py_isspace c \<and> c \<noteq> 41)"

definition step_name_at :: "ustr \<Rightarrow> ustr option" where
  "step_name_at s =
     (if startswith s (u ''(step'') then
        (let r = drop 5 s; name = takeWhile name_char (dropWhile py_isspace r)
         in if takeWhile py_isspace r \<noteq> [] \<and> name \<noteq> [] then Some name else None)
      else None)"

fun STEP_NAME_RE_search :: "ustr \<Rightarrow> ustr option" where
  "STEP_NAME_RE_search [] = None"
| "STEP_NAME_RE_search (c # cs) =
     (case step_name_at (c # cs) of
        Some name \<Rightarrow> Some name
      | None \<Rightarrow> STEP_NAME_RE_search cs)"

text \<open>
  Iterating over a file opened in text mode gives its lines, each with its line end,
  after \<^verbatim>\<open>\r\n\<close> and \<^verbatim>\<open>\r\<close> have been turned into \<^verbatim>\<open>\n\<close>.
\<close>

fun universal_newlines :: "bool \<Rightarrow> ustr \<Rightarrow> ustr" where
  "universal_newlines cr [] = []"
| "universal_newlines cr (c # cs) =
     (if c = 13 then 10 # universal_newlines True cs
      else if c = 10 \<and> cr then universal_newlines False cs
      else c # universal_newlines False cs)"

fun split_lines :: "ustr \<Rightarrow> ustr \<Rightarrow> ustr list" where
  "split_lines cur [] = (if cur = [] then [] else [cur])"
| "split_lines cur (c # cs) =
     (if c = 10 then (cur @ [c]) # split_lines [] cs else split_lines (cur @ [c]) cs)"

definition read_file_lines :: "fs \<Rightarrow> path \<Rightarrow> py_error + (nat \<times> ustr) list" where
  "read_file_lines f p =
     (case open_read f p of
        Inl e \<Rightarrow> Inl e
      | Inr b \<Rightarrow>
          Inr (enumerate 1 (split_lines [] (universal_newlines False (utf8_decode_ignore b)))))"

fun scan_holes :: "(nat \<times> ustr) list \<Rightarrow> (ustr \<times> nat) list" where
  \<comment> \<open>the first loop of \<^verbatim>\<open>holes_in_alethe\<close>\<close>
  "scan_holes [] = []"
| "scan_holes ((lineno, line) # rest) =
     (if py_in HOLE_MARKER line then
        (case STEP_NAME_RE_search line of
           Some name \<Rightarrow>
             if py_in (u ''.'') name then scan_holes rest else (name, lineno) # scan_holes rest
         | None \<Rightarrow> scan_holes rest)
      else scan_holes rest)"

fun uniq_holes :: "ustr set \<Rightarrow> (ustr \<times> nat) list \<Rightarrow> (ustr \<times> nat) list" where
  \<comment> \<open>the second loop, with its set \<^verbatim>\<open>seen\<close>\<close>
  "uniq_holes seen [] = []"
| "uniq_holes seen (h # hs) =
     (if fst h \<notin> seen then h # uniq_holes (insert (fst h) seen) hs else uniq_holes seen hs)"

definition holes_in_alethe :: "fs \<Rightarrow> path \<Rightarrow> py_error + (ustr \<times> nat) list" where
  "holes_in_alethe f p =
     (case read_file_lines f p of
        Inl e \<Rightarrow> Inl e
      | Inr ls \<Rightarrow> Inr (uniq_holes {} (scan_holes ls)))"

text \<open>
  The marker occurrences of a file, in the words of the specification: the step name
  and the line number of every line that holds the marker and a step name.
\<close>

definition line_marker :: "nat \<times> ustr \<Rightarrow> (ustr \<times> nat) option" where
  "line_marker x =
     (case x of (lineno, line) \<Rightarrow>
        if py_in HOLE_MARKER line
        then map_option (\<lambda>name. (name, lineno)) (STEP_NAME_RE_search line)
        else None)"

definition marker_occurrences :: "(nat \<times> ustr) list \<Rightarrow> (ustr \<times> nat) list" where
  "marker_occurrences ls = List.map_filter line_marker ls"

text \<open>
  The scan of one file in \<^verbatim>\<open>slice_to_json.py\<close>, lines 20 to 35: the same loop inside
  \<^verbatim>\<open>try\<close>, with \<^verbatim>\<open>except Exception: continue\<close>.
\<close>

definition scan_file_commands :: "fs \<Rightarrow> path \<Rightarrow> (ustr \<times> nat) list" where
  "scan_file_commands f p =
     (case read_file_lines f p of
        Inl e \<Rightarrow> []
      | Inr ls \<Rightarrow> marker_occurrences ls)"

definition example_cert :: bytes where
  "example_cert = ''(step h1 TRUST_THEORY_REWRITE\<newline>(step h1.sub TRUST_THEORY_REWRITE\<newline>(step h1 TRUST_THEORY_REWRITE\<newline>(step h2 TRUST_THEORY_REWRITE\<newline>''"

definition example_lines :: "(nat \<times> ustr) list" where
  "example_lines =
     [(1, u ''(step h1 TRUST_THEORY_REWRITE\<newline>''),
      (2, u ''(step h1.sub TRUST_THEORY_REWRITE\<newline>''),
      (3, u ''(step h1 TRUST_THEORY_REWRITE\<newline>''),
      (4, u ''(step h2 TRUST_THEORY_REWRITE\<newline>'')]"

subsection \<open>JSON text\<close>

text \<open>
  A job result record is a \<^verbatim>\<open>dict\<close> from strings to strings, integers, booleans and
  \<^verbatim>\<open>None\<close>: an association list in insertion order. \<open>obj_text\<close> and \<open>list_text\<close>
  are the text of \<^verbatim>\<open>json.dumps(x, ensure_ascii=False, indent=2)\<close> for a record at nesting
  level \<open>lvl\<close> and for a list of records, when it returns. It raises \<^verbatim>\<open>ValueError\<close> when
  an integer is too long to be written (\<open>json_error\<close>): \<open>json_dumps\<close> and
  \<open>json_dumps_list\<close> are the call with its exception.
\<close>

datatype jval = JNull | JBool bool | JInt int | JStr ustr

type_synonym jobj = "(ustr \<times> jval) list"

definition hex_digit :: "nat \<Rightarrow> nat" where
  "hex_digit d = (if d < 10 then 48 + d else 87 + d)"

definition escape_char :: "nat \<Rightarrow> ustr" where
  "escape_char c =
     (if c = 34 then [92, 34]
      else if c = 92 then [92, 92]
      else if c = 10 then [92, 110]
      else if c = 13 then [92, 114]
      else if c = 9 then [92, 116]
      else if c = 8 then [92, 98]
      else if c = 12 then [92, 102]
      else if c < 32 then [92, 117, 48, 48, hex_digit (c div 16), hex_digit (c mod 16)]
      else [c])"

definition encode_basestring :: "ustr \<Rightarrow> ustr" where
  "encode_basestring s = 34 # concat (map escape_char s) @ [34]"

definition val_text :: "jval \<Rightarrow> ustr" where
  "val_text v =
     (case v of
        JNull \<Rightarrow> u ''null''
      | JBool b \<Rightarrow> (if b then u ''true'' else u ''false'')
      | JInt i \<Rightarrow> py_str i
      | JStr s \<Rightarrow> encode_basestring s)"

definition newline_indent :: "nat \<Rightarrow> ustr" where
  "newline_indent lvl = 10 # replicate (2 * lvl) 32"

definition item_text :: "ustr \<times> jval \<Rightarrow> ustr" where
  "item_text kv = encode_basestring (fst kv) @ u '': '' @ val_text (snd kv)"

fun join :: "ustr \<Rightarrow> ustr list \<Rightarrow> ustr" where
  \<comment> \<open>\<^verbatim>\<open>sep.join(xs)\<close>\<close>
  "join sep [] = []"
| "join sep [x] = x"
| "join sep (x # y # ys) = x @ sep @ join sep (y # ys)"

definition obj_text :: "nat \<Rightarrow> jobj \<Rightarrow> ustr" where
  "obj_text lvl e =
     (if e = [] then u ''{}''
      else [123] @ newline_indent (Suc lvl)
           @ join (44 # newline_indent (Suc lvl)) (map item_text e)
           @ newline_indent lvl @ [125])"

definition list_text :: "jobj list \<Rightarrow> ustr" where
  "list_text xs =
     (if xs = [] then u ''[]''
      else [91] @ newline_indent 1
           @ join (44 # newline_indent 1) (map (obj_text 1) xs)
           @ newline_indent 0 @ [93])"


definition val_error :: "jval \<Rightarrow> py_error option" where
  "val_error v =
     (case v of
        JInt i \<Rightarrow> (case int_repr i of Inl e \<Rightarrow> Some e | Inr s \<Rightarrow> None)
      | _ \<Rightarrow> None)"

fun json_error :: "jobj \<Rightarrow> py_error option" where
  \<comment> \<open>the exception of the first value that cannot be written\<close>
  "json_error [] = None"
| "json_error (kv # e) =
     (case val_error (snd kv) of
        Some err \<Rightarrow> Some err
      | None \<Rightarrow> json_error e)"

definition json_dumps :: "nat \<Rightarrow> jobj \<Rightarrow> py_error + ustr" where
  \<comment> \<open>\<^verbatim>\<open>json.dumps(entry, ensure_ascii=False, indent=2)\<close>\<close>
  "json_dumps lvl e = (case json_error e of Some err \<Rightarrow> Inl err | None \<Rightarrow> Inr (obj_text lvl e))"

definition json_dumps_list :: "jobj list \<Rightarrow> py_error + ustr" where
  \<comment> \<open>\<^verbatim>\<open>json.dumps([e1, ...], ensure_ascii=False, indent=2)\<close>\<close>
  "json_dumps_list xs =
     (case List.find (\<lambda>e. json_error e \<noteq> None) xs of
        Some e \<Rightarrow> (case json_error e of Some err \<Rightarrow> Inl err | None \<Rightarrow> Inr (list_text xs))
      | None \<Rightarrow> Inr (list_text xs))"

text \<open>
  \<^verbatim>\<open>json.dump(x, f, ensure_ascii=False, indent=2)\<close> writes the same text to \<open>f\<close> one
  chunk at a time, as the encoder produces them: a chunk for each bracket, indentation
  and separator, for each key, for \<^verbatim>\<open>": "\<close> and for each value. A chunk is the
  exception when producing it raises. When \<open>f\<close> is a text file in UTF-8, each chunk is
  encoded as it is written, and the chunks written before an exception stay in the
  file.
\<close>

type_synonym chunk = "py_error + ustr"

definition val_chunk :: "jval \<Rightarrow> chunk" where
  "val_chunk v = (case val_error v of Some err \<Rightarrow> Inl err | None \<Rightarrow> Inr (val_text v))"

fun item_chunks :: "nat \<Rightarrow> bool \<Rightarrow> jobj \<Rightarrow> chunk list" where
  "item_chunks lvl first [] = []"
| "item_chunks lvl first (kv # e) =
     (if first then [] else [Inr (44 # newline_indent lvl)])
     @ [Inr (encode_basestring (fst kv)), Inr (u '': ''), val_chunk (snd kv)]
     @ item_chunks lvl False e"

definition obj_chunks :: "nat \<Rightarrow> jobj \<Rightarrow> chunk list" where
  "obj_chunks lvl e =
     (if e = [] then [Inr (u ''{}'')]
      else [Inr [123], Inr (newline_indent (Suc lvl))] @ item_chunks (Suc lvl) True e
           @ [Inr (newline_indent lvl), Inr [125]])"

fun elem_chunks :: "bool \<Rightarrow> jobj list \<Rightarrow> chunk list" where
  "elem_chunks first [] = []"
| "elem_chunks first (x # xs) =
     Inr (if first then 91 # newline_indent 1 else 44 # newline_indent 1)
     # obj_chunks 1 x @ elem_chunks False xs"

definition list_chunks :: "jobj list \<Rightarrow> chunk list" where
  "list_chunks xs =
     (if xs = [] then [Inr (u ''[]'')]
      else elem_chunks True xs @ [Inr (newline_indent 0), Inr [93]])"

fun write_chunks :: "chunk list \<Rightarrow> py_error option \<times> bytes" where
  \<comment> \<open>\<^verbatim>\<open>for chunk in chunks: f.write(chunk)\<close> on a text file: the exception, if any, and
      the bytes written\<close>
  "write_chunks [] = (None, [])"
| "write_chunks (Inl err # cs) = (Some err, [])"
| "write_chunks (Inr s # cs) =
     (case utf8_encode s of
        Inl err \<Rightarrow> (Some err, [])
      | Inr b \<Rightarrow> (case write_chunks cs of (r, bs) \<Rightarrow> (r, b @ bs)))"
subsection \<open>append_json_array\<close>

text \<open>
  \<^verbatim>\<open>json.load\<close> is the library's: the fallback only looks at whether it raised, gave a
  falsy value, a list, or something else that is truthy, so it is a parameter with
  these four answers. A file opened with \<^verbatim>\<open>"rb+"\<close> is a binary file: its
  \<^verbatim>\<open>write\<close> takes \<^verbatim>\<open>bytes\<close> and raises \<^verbatim>\<open>TypeError\<close> on a \<^verbatim>\<open>str\<close>, and
  \<^verbatim>\<open>json.dump(obj, f)\<close> calls \<^verbatim>\<open>f.write\<close> with \<^verbatim>\<open>str\<close> chunks.
\<close>

datatype loaded = LoadRaised | LoadFalsy | LoadList "jobj list" | LoadOther

type_synonym json_load = "bytes \<Rightarrow> loaded"

datatype pydata = Text ustr | Bytes bytes

definition binary_write :: "pydata \<Rightarrow> py_error + bytes" where
  \<comment> \<open>what \<^verbatim>\<open>f.write(x)\<close> hands to a binary file\<close>
  "binary_write x = (case x of Text s \<Rightarrow> Inl TypeError | Bytes b \<Rightarrow> Inr b)"

definition write_at :: "bytes \<Rightarrow> nat \<Rightarrow> bytes \<Rightarrow> bytes" where
  \<comment> \<open>\<^verbatim>\<open>f.seek(off); f.write(b)\<close> on a file that holds \<open>d\<close>\<close>
  "write_at d off b =
     take off d @ replicate (off - length d) (CHR 0x00) @ b @ drop (off + length b) d"

function scan_back :: "bytes \<Rightarrow> nat \<Rightarrow> ustr \<Rightarrow> nat \<times> ustr" where
  \<comment> \<open>the \<^verbatim>\<open>while\<close> loop of lines 74 to 77; \<open>pos - 1024\<close> on \<open>nat\<close> is
      \<^verbatim>\<open>max(0, pos - step)\<close>\<close>
  "scan_back d pos chunk =
     (if \<not> py_in (u '']'') chunk \<and> 0 < pos then
        (let pos' = pos - 1024
         in scan_back d pos'
              (utf8_decode_ignore (take (min 1024 (pos' + 1024)) (drop pos' d)) @ chunk))
      else (pos, chunk))"
  by pat_completeness auto
termination
  by (relation "measure (\<lambda>(d, pos, chunk). pos)") auto

declare scan_back.simps [simp del]

definition find_last_bracket :: "bytes \<Rightarrow> nat option" where
  \<comment> \<open>lines 69 to 78 and 91: \<open>abs_pos\<close>, or \<open>None\<close> when \<open>last_bracket\<close> is \<open>-1\<close>\<close>
  "find_last_bracket d =
     (let size = length d;
          pos0 = size - 1024;
          chunk0 = utf8_decode_ignore (drop pos0 d)
      in case scan_back d pos0 chunk0 of
           (pos, chunk) \<Rightarrow>
             (case py_rfind 93 chunk of
                None \<Rightarrow> None
              | Some last_bracket \<Rightarrow> Some (pos + last_bracket)))"

definition append_to_ledger :: "json_load \<Rightarrow> fs \<Rightarrow> path \<Rightarrow> jobj \<Rightarrow> py_error option \<times> fs" where
  \<comment> \<open>lines 58 to 94\<close>
  "append_to_ledger load f p entry =
     (case f p of
        None \<Rightarrow>
          \<comment> \<open>lines 58 to 62, a text file\<close>
          (case write_chunks (list_chunks [entry] @ [Inr (u ''\<newline>'')]) of
             (r, b) \<Rightarrow> (r, f(p \<mapsto> File True True b)))
      | Some Dir \<Rightarrow> (Some IsADirectoryError, f)
      | Some (File r w d) \<Rightarrow>
          if \<not> (r \<and> w) then (Some PermissionError, f)
          else if length d = 0 then
            \<comment> \<open>lines 65 to 68\<close>
            (case json_dumps_list [entry] of
               Inl e \<Rightarrow> (Some e, f)
             | Inr s \<Rightarrow>
                 (case utf8_encode s of
                    Inl e \<Rightarrow> (Some e, f)
                  | Inr b \<Rightarrow>
                      (case binary_write (Bytes b) of
                         Inl e \<Rightarrow> (Some e, f)
                       | Inr b1 \<Rightarrow>
                           (case binary_write (Bytes ''\<newline>'') of
                              Inl e \<Rightarrow> (Some e, f(p \<mapsto> File r w b1))
                            | Inr b2 \<Rightarrow> (None, f(p \<mapsto> File r w (b1 @ b2)))))))
          else
            (case find_last_bracket d of
               None \<Rightarrow>
                 \<comment> \<open>lines 79 to 90; the first chunk of \<^verbatim>\<open>json.dump\<close> is the opening
                     bracket, so nothing of the list is looked at before \<^verbatim>\<open>write\<close> raises\<close>
                 (case (case load d of
                          LoadRaised \<Rightarrow> Inr []
                        | LoadFalsy \<Rightarrow> Inr []
                        | LoadList xs \<Rightarrow> Inr xs
                        | LoadOther \<Rightarrow> Inl AttributeError) of
                    Inl e \<Rightarrow> (Some e, f)
                  | Inr existing \<Rightarrow>
                      (let truncated = f(p \<mapsto> File r w [])
                       in case binary_write (Text (91 # newline_indent 1)) of
                            Inl e \<Rightarrow> (Some e, truncated)
                          | Inr b1 \<Rightarrow>
                              (case binary_write (Bytes ''\<newline>'') of
                                 Inl e \<Rightarrow> (Some e, f(p \<mapsto> File r w b1))
                               | Inr b2 \<Rightarrow> (None, f(p \<mapsto> File r w (b1 @ b2))))))
             | Some abs_pos \<Rightarrow>
                 \<comment> \<open>lines 91 to 94\<close>
                 (case json_dumps 0 entry of
                    Inl e \<Rightarrow> (Some e, f)
                  | Inr s \<Rightarrow>
                      (case utf8_encode (u '',\<newline>'' @ s @ u ''\<newline>]'') of
                         Inl e \<Rightarrow> (Some e, f)
                       | Inr tail \<Rightarrow>
                           (case binary_write (Bytes tail) of
                              Inl e \<Rightarrow> (Some e, f)
                            | Inr b \<Rightarrow> (None, f(p \<mapsto> File r w (write_at d abs_pos b))))))))"

definition append_json_array :: "json_load \<Rightarrow> fs \<Rightarrow> path \<Rightarrow> jobj \<Rightarrow> py_error option \<times> fs" where
  \<comment> \<open>line 57, then the rest\<close>
  "append_json_array load f p entry =
     (case makedirs f (dirname p) of
        Inl e \<Rightarrow> (Some e, f)
      | Inr f0 \<Rightarrow> append_to_ledger load f0 p entry)"

fun run_appends :: "json_load \<Rightarrow> fs \<Rightarrow> path \<Rightarrow> jobj list \<Rightarrow> py_error option \<times> fs" where
  \<comment> \<open>one call after the other; an exception ends the run\<close>
  "run_appends load f p [] = (None, f)"
| "run_appends load f p (e # es) =
     (case append_json_array load f p e of
        (None, f') \<Rightarrow> run_appends load f' p es
      | (Some err, f') \<Rightarrow> (Some err, f'))"

subsection \<open>The external tool and the state of a run\<close>

text \<open>
  \<^verbatim>\<open>carcara\<close> is a black box: for a command line, a timeout and the files it can read it
  gives an exit code, what it wrote to standard output and to standard error, whether
  it was still running when the timeout expired, and the time the driver measured
  around the call. Its only writes are to the files the driver redirects it to.

  The state of a run is the file system, the lines the driver has printed, and the
  command lines it has run. Standard output takes every string; \<^verbatim>\<open>print(json.dumps(x))\<close>
  raises only when \<^verbatim>\<open>json.dumps\<close> does.
\<close>

record proc_result =
  returncode :: int
  out_bytes :: bytes
  err_bytes :: bytes
  expired :: bool
  wall_ns :: int

type_synonym tool = "ustr list \<Rightarrow> int option \<Rightarrow> fs \<Rightarrow> proc_result"

datatype printed_line = JsonLine jobj | DebugCmd "ustr list" path

record world =
  files :: fs
  printed :: "printed_line list"
  invoked :: "ustr list list"

definition print_json :: "world \<Rightarrow> jobj \<Rightarrow> py_error + world" where
  \<comment> \<open>\<^verbatim>\<open>print(json.dumps(x))\<close>\<close>
  "print_json w x =
     (case json_error x of
        Some err \<Rightarrow> Inl err
      | None \<Rightarrow> Inr (w\<lparr>printed := printed w @ [JsonLine x]\<rparr>))"

subsection \<open>run_slice\<close>

definition slice_cmd :: "ustr \<Rightarrow> path \<Rightarrow> path \<Rightarrow> bool \<Rightarrow> bool \<Rightarrow> ustr list" where
  "slice_cmd from_hole alethe_path smt2_path parse_hole_args no_print_with_sharing =
     [u ''carcara'', u ''slice'', u ''--from'', from_hole, alethe_path, smt2_path]
     @ (if parse_hole_args then [u ''--parse-hole-args''] else [])
     @ (if no_print_with_sharing then [u ''--no-print-with-sharing''] else [])"

definition run_slice ::
  "tool \<Rightarrow> world \<Rightarrow> ustr \<Rightarrow> path \<Rightarrow> path \<Rightarrow> path \<Rightarrow> bool \<Rightarrow> bool \<Rightarrow> bool
     \<Rightarrow> (py_error + bool \<times> path option) \<times> world" where
  "run_slice carcara w from_hole alethe_path smt2_path out_slice_path parse_hole_args
       no_print_with_sharing debug =
     (case makedirs (files w) (dirname out_slice_path) of
        Inl e \<Rightarrow> (Inl e, w)
      | Inr f0 \<Rightarrow>
     (let cmd = slice_cmd from_hole alethe_path smt2_path parse_hole_args no_print_with_sharing;
          w0 = w\<lparr>files := f0\<rparr>;
          w1 = (if debug then w0\<lparr>printed := printed w0 @ [DebugCmd cmd out_slice_path]\<rparr> else w0);
          stderr_path = out_slice_path @ u ''.stderr''
      in case open_write (files w1) out_slice_path of
           Inl e \<Rightarrow> (Inl e, w1)
         | Inr f1 \<Rightarrow>
             (case open_write f1 stderr_path of
                Inl e \<Rightarrow> (Inl e, w1\<lparr>files := f1\<rparr>)
              | Inr f2 \<Rightarrow>
                  (let proc = carcara cmd None f2;
                       f3 = put_contents (put_contents f2 out_slice_path (out_bytes proc))
                              stderr_path (err_bytes proc);
                       w2 = w1\<lparr>files := f3, invoked := invoked w1 @ [cmd]\<rparr>
                   in case getsize f3 out_slice_path of
                        Inl e \<Rightarrow> (Inl e, w2)
                      | Inr n \<Rightarrow>
                          if n = 0 \<or> returncode proc \<noteq> 0 then (Inr (False, Some stderr_path), w2)
                          else
                            (case getsize f3 stderr_path of
                               Inl e \<Rightarrow>
                                 if e = FileNotFoundError then (Inr (True, None), w2)
                                 else (Inl e, w2)
                             | Inr k \<Rightarrow>
                                 if k = 0 \<and> \<not> debug
                                 then (Inr (True, None), w2\<lparr>files := f3(stderr_path := None)\<rparr>)
                                 else (Inr (True, None), w2))))))"

subsection \<open>run_elaborate\<close>

record elab_result =
  ok :: bool
  success :: nat
  failed :: nat
  panicked :: bool
  elapsed_ns :: int
  timed_out :: bool

definition classify_log :: "py_error + ustr \<Rightarrow> int \<Rightarrow> bool \<Rightarrow> elab_result" where
  \<comment> \<open>lines 183 to 200: the first argument is what opening and reading the log gave\<close>
  "classify_log rd ns tmo =
     (case rd of
        Inr data \<Rightarrow>
          (let s = py_count data (u ''Elaboration successed'');
               f = py_count data (u ''Check failed:'');
               p = py_in (u ''panicked at'') data
           in \<lparr>ok = (if tmo \<or> p \<or> f > 0 then False else True), success = s, failed = f,
                panicked = p, elapsed_ns = ns, timed_out = tmo\<rparr>)
      | Inl e \<Rightarrow>
          \<lparr>ok = False, success = 0, failed = 0, panicked = False, elapsed_ns = ns,
           timed_out = tmo\<rparr>)"

definition elaborate_cmd :: "path \<Rightarrow> path \<Rightarrow> path \<Rightarrow> bool \<Rightarrow> bool \<Rightarrow> bool \<Rightarrow> bool \<Rightarrow> ustr list" where
  "elaborate_cmd slice_path smt2_path rare_file allow_int_real add_pipeline
       parse_hole_args no_print_with_sharing =
     [u ''carcara'', u ''elaborate'', slice_path, smt2_path, u ''--rare-file'', rare_file,
      u ''--hole-solver'', u ''rare_rewrite'', u ''--expand-let-bindings'']
     @ (if allow_int_real then [u ''--allow-int-real-subtyping''] else [])
     @ (if add_pipeline then [u ''--pipeline'', u ''hole'', u ''local''] else [])
     @ (if parse_hole_args then [u ''--parse-hole-args''] else [])
     @ (if no_print_with_sharing then [u ''--no-print-with-sharing''] else [])"

definition timeout_marker :: "int \<Rightarrow> bytes" where
  \<comment> \<open>lines 175 to 178: what the \<^verbatim>\<open>write\<close> adds to the log; nothing when it raises\<close>
  "timeout_marker timeout_sec =
     (case int_repr timeout_sec of
        Inl e \<Rightarrow> []
      | Inr s \<Rightarrow>
          (case utf8_encode (u ''\<newline>[timeout] Elaboration exceeded '' @ s
                             @ u ''s and was terminated.\<newline>'') of
             Inr b \<Rightarrow> b
           | Inl e \<Rightarrow> []))"

definition read_log :: "fs \<Rightarrow> path \<Rightarrow> py_error + ustr" where
  \<comment> \<open>lines 188 and 189: a text file with \<^verbatim>\<open>errors="ignore"\<close>\<close>
  "read_log f p =
     (case open_read f p of
        Inl e \<Rightarrow> Inl e
      | Inr b \<Rightarrow> Inr (universal_newlines False (utf8_decode_ignore b)))"

definition run_elaborate ::
  "tool \<Rightarrow> world \<Rightarrow> path \<Rightarrow> path \<Rightarrow> path \<Rightarrow> path \<Rightarrow> bool \<Rightarrow> bool \<Rightarrow> bool \<Rightarrow> bool \<Rightarrow> int
     \<Rightarrow> (py_error + elab_result) \<times> world" where
  "run_elaborate carcara w slice_path smt2_path out_log_path rare_file allow_int_real
       add_pipeline no_print_with_sharing parse_hole_args timeout_sec =
     (case makedirs (files w) (dirname out_log_path) of
        Inl e \<Rightarrow> (Inl e, w)
      | Inr f0 \<Rightarrow>
     (let cmd = elaborate_cmd slice_path smt2_path rare_file allow_int_real add_pipeline
                  parse_hole_args no_print_with_sharing
      in case open_write f0 out_log_path of
           Inl e \<Rightarrow> (Inl e, w\<lparr>files := f0\<rparr>)
         | Inr f1 \<Rightarrow>
             (let proc = carcara cmd (if timeout_sec \<le> 0 then None else Some timeout_sec) f1;
                  tmo = (0 < timeout_sec \<and> expired proc);
                  logged = out_bytes proc @ (if tmo then timeout_marker timeout_sec else []);
                  f2 = put_contents f1 out_log_path logged
              in (Inr (classify_log (read_log f2 out_log_path) (wall_ns proc) tmo),
                  w\<lparr>files := f2, invoked := invoked w @ [cmd]\<rparr>))))"

subsection \<open>The loop body of main, for one hole\<close>

text \<open>
  What \<^verbatim>\<open>main\<close> has computed for a certificate when it reaches one of its holes
  (line 268): the names and paths of lines 224 to 264 and the hole. \<^verbatim>\<open>rel_to\<close>, which
  never raises, is the library's \<^verbatim>\<open>relpath\<close> with its fallback: \<open>rel_root\<close> and
  \<open>rel_out\<close> are \<^verbatim>\<open>rel_to(root_abs, _)\<close> and \<^verbatim>\<open>rel_to(out_root_parent, _)\<close>. The
  variable \<^verbatim>\<open>smt2_src\<close> is carried from one hole to the next: it is an argument and a
  result of the body.
\<close>

record job =
  root_name :: ustr
  alethe_path :: path
  out_dir :: path
  base_name :: ustr
  hole_name :: ustr
  line_no :: nat
  smt2_for_slice :: path
  results_path :: path
  rel_root :: "path \<Rightarrow> ustr"
  rel_out :: "path \<Rightarrow> ustr"

record args =
  rare_file :: path
  elab_timeout_sec :: int
  debug :: bool
  no_move :: bool
  allow_int_real_subtyping :: bool
  pipeline_hole_local :: bool
  parse_hole_args :: bool
  no_print_with_sharing :: bool

definition slice_path :: "job \<Rightarrow> path" where
  \<comment> \<open>lines 269 and 270\<close>
  "slice_path j =
     path_join (out_dir j) (base_name j @ u ''__from-'' @ hole_name j @ u ''.smt2.alethe'')"

definition out_log_path :: "job \<Rightarrow> path" where
  \<comment> \<open>line 271\<close>
  "out_log_path j = path_join (out_dir j) (base_name j @ u ''__from-'' @ hole_name j @ u ''.out'')"

definition smt2_target :: "job \<Rightarrow> path" where
  \<comment> \<open>lines 107 and 299\<close>
  "smt2_target j = path_join (out_dir j) (base_name j @ u ''.smt2'')"

datatype step = Raised py_error | Continue | Next

definition slice_stage :: "tool \<Rightarrow> args \<Rightarrow> world \<Rightarrow> job \<Rightarrow> step \<times> world" where
  \<comment> \<open>lines 273 to 292\<close>
  "slice_stage carcara a w j =
     (if path_exists (files w) (slice_path j) then (Next, w)
      else case run_slice carcara w (hole_name j) (alethe_path j) (smt2_for_slice j)
                  (slice_path j) (parse_hole_args a) (no_print_with_sharing a) (debug a) of
             (Inl e, w1) \<Rightarrow> (Raised e, w1)
           | (Inr (ok_slice, stderr_path), w1) \<Rightarrow>
               if \<not> ok_slice then
                 (case print_json w1
                         [(u ''status'', JStr (u ''slice_error'')),
                          (u ''alethe'', JStr (rel_root j (alethe_path j))),
                          (u ''hole'', JStr (hole_name j)),
                          (u ''line'', JInt (int (line_no j))),
                          (u ''stderr'', (case stderr_path of
                                            None \<Rightarrow> JNull
                                          | Some sp \<Rightarrow> if sp = [] then JNull
                                                       else JStr (rel_out j sp)))] of
                    Inl e \<Rightarrow> (Raised e, w1)
                  | Inr w2 \<Rightarrow> (Continue, w2))
               else (Next, w1))"

definition usable :: "fs \<Rightarrow> path option \<Rightarrow> bool" where
  \<comment> \<open>\<^verbatim>\<open>smt2_src and os.path.isfile(smt2_src)\<close>\<close>
  "usable f src = (case src of None \<Rightarrow> False | Some s \<Rightarrow> s \<noteq> [] \<and> isfile f s)"

definition transfer_stage ::
  "args \<Rightarrow> world \<Rightarrow> job \<Rightarrow> path option \<Rightarrow> (py_error + path \<times> path option) \<times> world" where
  \<comment> \<open>lines 294 to 319: the result is \<^verbatim>\<open>smt2_dest\<close> and the new \<^verbatim>\<open>smt2_src\<close>\<close>
  "transfer_stage a w j smt2_src =
     (let f = files w; target = smt2_target j
      in if isfile f target then (Inr (target, smt2_src), w)
         else
           (let src = (if \<not> usable f smt2_src \<and> isfile f (smt2_for_slice j)
                       then Some (smt2_for_slice j) else smt2_src)
            in if usable f src then
                 (case (if no_move a then
                          (case copy2 f (the src) target of
                             Inl e \<Rightarrow> Inl e
                           | Inr f1 \<Rightarrow> Inr (u ''copied'', f1))
                        else
                          (case move_file f (the src) target of
                             Inr f1 \<Rightarrow> Inr (u ''moved'', f1)
                           | Inl e \<Rightarrow>
                               if e = ShutilError \<or> e = SameFileError then
                                 (case copy2 f (the src) target of
                                    Inl e2 \<Rightarrow> Inl e2
                                  | Inr f1 \<Rightarrow> Inr (u ''moved_copy'', remove_quietly f1 (the src)))
                               else Inl e)) of
                    Inl e \<Rightarrow> (Inl e, w)
                  | Inr (moved_action, f1) \<Rightarrow>
                      (Inr (target, src),
                       w\<lparr>files := f1,
                         printed := printed w @
                           (if debug a
                            then [JsonLine [(u ''debug'', JStr (u ''smt2_transfer'')),
                                            (u ''action'', JStr moved_action),
                                            (u ''to'', JStr (rel_out j target))]]
                            else [])\<rparr>))
               else (Inr (smt2_for_slice j, src), w)))"

definition cached_line :: "job \<Rightarrow> jobj" where
  "cached_line j =
     [(u ''status'', JStr (u ''ok'')),
      (u ''cached'', JBool True),
      (u ''root'', JStr (root_name j)),
      (u ''alethe'', JStr (rel_root j (alethe_path j))),
      (u ''hole'', JStr (hole_name j)),
      (u ''slice'', JStr (rel_out j (slice_path j))),
      (u ''out'', JStr (rel_out j (out_log_path j)))]"

definition result_record :: "job \<Rightarrow> path \<Rightarrow> elab_result \<Rightarrow> ustr \<Rightarrow> jobj" where
  "result_record j smt2_dest r elapsed =
     [(u ''root'', JStr (root_name j)),
      (u ''alethe'', JStr (rel_root j (alethe_path j))),
      (u ''hole'', JStr (hole_name j)),
      (u ''line'', JInt (int (line_no j))),
      (u ''slice'', JStr (rel_out j (slice_path j))),
      (u ''smt2'', (if smt2_dest = [] then JNull else JStr (rel_out j smt2_dest))),
      (u ''out'', JStr (rel_out j (out_log_path j))),
      (u ''ok'', JBool (ok r)),
      (u ''success'', JInt (int (success r))),
      (u ''failed'', JInt (int (failed r))),
      (u ''panicked'', JBool (panicked r)),
      (u ''timeout'', JBool (timed_out r)),
      (u ''elapsed'', JStr elapsed)]"

definition elaborate_stage ::
  "tool \<Rightarrow> json_load \<Rightarrow> args \<Rightarrow> world \<Rightarrow> job \<Rightarrow> path \<Rightarrow> step \<times> world" where
  \<comment> \<open>lines 321 to 363\<close>
  "elaborate_stage carcara load a w j smt2_dest =
     (if path_exists (files w) (out_log_path j) then
        (case print_json w (cached_line j) of
           Inl e \<Rightarrow> (Raised e, w)
         | Inr w1 \<Rightarrow> (Continue, w1))
      else case run_elaborate carcara w (slice_path j) smt2_dest (out_log_path j)
                  (rare_file a) (allow_int_real_subtyping a) (pipeline_hole_local a)
                  (no_print_with_sharing a) (parse_hole_args a) (elab_timeout_sec a) of
             (Inl e, w1) \<Rightarrow> (Raised e, w1)
           | (Inr r, w1) \<Rightarrow>
               (case human_elapsed (elapsed_ns r) of
                  Inl e \<Rightarrow> (Raised e, w1)
                | Inr elapsed \<Rightarrow>
                    (let result = result_record j smt2_dest r elapsed
                     in case print_json w1 result of
                          Inl e \<Rightarrow> (Raised e, w1)
                        | Inr w2 \<Rightarrow>
                            (case append_json_array load (files w2) (results_path j) result of
                               (Some e, f') \<Rightarrow> (Raised e, w2\<lparr>files := f'\<rparr>)
                             | (None, f') \<Rightarrow> (Next, w2\<lparr>files := f'\<rparr>)))))"

definition process_job ::
  "tool \<Rightarrow> json_load \<Rightarrow> args \<Rightarrow> world \<Rightarrow> job \<Rightarrow> path option
     \<Rightarrow> (py_error + path option) \<times> world" where
  \<comment> \<open>lines 269 to 363, one turn of the loop over the holes: the exception that ends
      the run, or \<^verbatim>\<open>smt2_src\<close> for the next hole\<close>
  "process_job carcara load a w j smt2_src =
     (case slice_stage carcara a w j of
        (Raised e, w1) \<Rightarrow> (Inl e, w1)
      | (Continue, w1) \<Rightarrow> (Inr smt2_src, w1)
      | (Next, w1) \<Rightarrow>
          (case transfer_stage a w1 j smt2_src of
             (Inl e, w2) \<Rightarrow> (Inl e, w2)
           | (Inr (smt2_dest, src), w2) \<Rightarrow>
               (case elaborate_stage carcara load a w2 j smt2_dest of
                  (Raised e, w3) \<Rightarrow> (Inl e, w3)
                | (other, w3) \<Rightarrow> (Inr src, w3))))"
subsection \<open>Reading the ledger\<close>

text \<open>
  What parsing the ledger means: the file is decoded as UTF-8 and read by the JSON
  grammar, here for the texts that are an array of objects whose values are strings,
  integers, \<^verbatim>\<open>true\<close>, \<^verbatim>\<open>false\<close> and \<^verbatim>\<open>null\<close>; every other text is refused, as
  are \<^verbatim>\<open>\u\<close> escapes of surrogates. The reader follows \<^verbatim>\<open>json.loads\<close>: white space
  is skipped where the grammar allows it, a control character inside a string is an
  error, a number has no leading zero, the members of an object become a \<^verbatim>\<open>dict\<close>
  (a repeated key keeps its first place and its last value), and nothing but white
  space may follow the array. The loops carry fuel, at most the length of the text.
\<close>

definition json_ws :: "nat \<Rightarrow> bool" where
  "json_ws c = (c = 32 \<or> c = 9 \<or> c = 10 \<or> c = 13)"

definition skip_ws :: "ustr \<Rightarrow> ustr" where
  "skip_ws s = dropWhile json_ws s"

definition expect :: "nat \<Rightarrow> ustr \<Rightarrow> ustr option" where
  "expect c s = (case s of [] \<Rightarrow> None | x # r \<Rightarrow> if x = c then Some r else None)"

definition unhex :: "nat \<Rightarrow> nat option" where
  "unhex c =
     (if 48 \<le> c \<and> c \<le> 57 then Some (c - 48)
      else if 97 \<le> c \<and> c \<le> 102 then Some (c - 87)
      else if 65 \<le> c \<and> c \<le> 70 then Some (c - 55)
      else None)"

definition hex4 :: "ustr \<Rightarrow> nat option" where
  "hex4 s =
     (case map unhex s of
        [Some a, Some b, Some c, Some d] \<Rightarrow> Some (a * 4096 + b * 256 + c * 16 + d)
      | _ \<Rightarrow> None)"

definition unescape :: "nat \<Rightarrow> nat option" where
  "unescape e =
     (if e = 34 then Some 34
      else if e = 92 then Some 92
      else if e = 47 then Some 47
      else if e = 98 then Some 8
      else if e = 102 then Some 12
      else if e = 110 then Some 10
      else if e = 114 then Some 13
      else if e = 116 then Some 9
      else None)"

fun scanstring :: "ustr \<Rightarrow> (ustr \<times> ustr) option" where
  \<comment> \<open>from after the opening quote to after the closing one\<close>
  "scanstring [] = None"
| "scanstring (c # cs) =
     (if c = 34 then Some ([], cs)
      else if c = 92 then
        (case cs of
           [] \<Rightarrow> None
         | e # r \<Rightarrow>
             if e = 117 then
               (case hex4 (take 4 r) of
                  None \<Rightarrow> None
                | Some cp \<Rightarrow>
                    if 55296 \<le> cp \<and> cp \<le> 57343 then None
                    else (case scanstring (drop 4 r) of
                            None \<Rightarrow> None
                          | Some (s, rest) \<Rightarrow> Some (cp # s, rest)))
             else
               (case unescape e of
                  None \<Rightarrow> None
                | Some d \<Rightarrow>
                    (case scanstring r of
                       None \<Rightarrow> None
                     | Some (s, rest) \<Rightarrow> Some (d # s, rest))))
      else if c < 32 then None
      else (case scanstring cs of
              None \<Rightarrow> None
            | Some (s, rest) \<Rightarrow> Some (c # s, rest)))"

definition is_digit :: "nat \<Rightarrow> bool" where
  "is_digit c = (48 \<le> c \<and> c \<le> 57)"

definition digits_value :: "ustr \<Rightarrow> nat" where
  "digits_value ds = foldl (\<lambda>a c. 10 * a + (c - 48)) 0 ds"

definition scan_int :: "ustr \<Rightarrow> (int \<times> ustr) option" where
  "scan_int s =
     (let neg = (s \<noteq> [] \<and> hd s = 45);
          s1 = (if neg then tl s else s);
          ds = takeWhile is_digit s1;
          rest = dropWhile is_digit s1
      in if ds = [] \<or> (hd ds = 48 \<and> 1 < length ds) then None
         else if rest \<noteq> [] \<and> (hd rest = 46 \<or> hd rest = 101 \<or> hd rest = 69) then None
         else if 4300 < length ds then None
         else Some (if neg then - int (digits_value ds) else int (digits_value ds), rest))"

definition scan_value :: "ustr \<Rightarrow> (jval \<times> ustr) option" where
  "scan_value s =
     (case s of
        [] \<Rightarrow> None
      | c # cs \<Rightarrow>
          if c = 34 then
            (case scanstring cs of None \<Rightarrow> None | Some (x, rest) \<Rightarrow> Some (JStr x, rest))
          else if startswith s (u ''null'') then Some (JNull, drop 4 s)
          else if startswith s (u ''true'') then Some (JBool True, drop 4 s)
          else if startswith s (u ''false'') then Some (JBool False, drop 5 s)
          else (case scan_int s of None \<Rightarrow> None | Some (i, rest) \<Rightarrow> Some (JInt i, rest)))"

fun scan_members :: "nat \<Rightarrow> ustr \<Rightarrow> ((ustr \<times> jval) list \<times> ustr) option" where
  \<comment> \<open>from after the opening quote of a key to after the closing brace\<close>
  "scan_members 0 s = None"
| "scan_members (Suc n) s =
     (case scanstring s of
        None \<Rightarrow> None
      | Some (key, s1) \<Rightarrow>
          (case expect 58 (skip_ws s1) of
             None \<Rightarrow> None
           | Some s2 \<Rightarrow>
               (case scan_value (skip_ws s2) of
                  None \<Rightarrow> None
                | Some (v, s3) \<Rightarrow>
                    (case skip_ws s3 of
                       [] \<Rightarrow> None
                     | c # s4 \<Rightarrow>
                         if c = 125 then Some ([(key, v)], s4)
                         else if c = 44 then
                           (case expect 34 (skip_ws s4) of
                              None \<Rightarrow> None
                            | Some s5 \<Rightarrow>
                                (case scan_members n s5 of
                                   None \<Rightarrow> None
                                 | Some (ms, rest) \<Rightarrow> Some ((key, v) # ms, rest)))
                         else None))))"

definition py_dict :: "(ustr \<times> jval) list \<Rightarrow> jobj" where
  \<comment> \<open>\<^verbatim>\<open>dict(pairs)\<close>\<close>
  "py_dict pairs = foldl (\<lambda>d kv. AList.update (fst kv) (snd kv) d) [] pairs"

definition scan_object :: "nat \<Rightarrow> ustr \<Rightarrow> (jobj \<times> ustr) option" where
  \<comment> \<open>from after the opening brace\<close>
  "scan_object n s =
     (case skip_ws s of
        [] \<Rightarrow> None
      | c # r \<Rightarrow>
          if c = 125 then Some ([], r)
          else if c = 34 then
            (case scan_members n r of
               None \<Rightarrow> None
             | Some (pairs, rest) \<Rightarrow> Some (py_dict pairs, rest))
          else None)"

fun scan_elements :: "nat \<Rightarrow> ustr \<Rightarrow> (jobj list \<times> ustr) option" where
  \<comment> \<open>from the first character of an element to after the closing bracket\<close>
  "scan_elements 0 s = None"
| "scan_elements (Suc n) s =
     (case expect 123 s of
        None \<Rightarrow> None
      | Some s1 \<Rightarrow>
          (case scan_object (length s) s1 of
             None \<Rightarrow> None
           | Some (obj, s2) \<Rightarrow>
               (case skip_ws s2 of
                  [] \<Rightarrow> None
                | c # s3 \<Rightarrow>
                    if c = 93 then Some ([obj], s3)
                    else if c = 44 then
                      (case scan_elements n (skip_ws s3) of
                         None \<Rightarrow> None
                       | Some (objs, rest) \<Rightarrow> Some (obj # objs, rest))
                    else None)))"

definition json_loads :: "ustr \<Rightarrow> jobj list option" where
  "json_loads s =
     (case expect 91 (skip_ws s) of
        None \<Rightarrow> None
      | Some s1 \<Rightarrow>
          (case (case skip_ws s1 of
                   [] \<Rightarrow> None
                 | c # r \<Rightarrow>
                     if c = 93 then Some ([], r) else scan_elements (length s) (c # r)) of
             None \<Rightarrow> None
           | Some (objs, rest) \<Rightarrow> if skip_ws rest = [] then Some objs else None))"

definition read_ledger :: "bytes \<Rightarrow> py_error + jobj list" where
  "read_ledger b =
     (case utf8_decode_strict b of
        Inl e \<Rightarrow> Inl e
      | Inr s \<Rightarrow>
          (case json_loads s of
             None \<Rightarrow> Inl JSONDecodeError
           | Some objs \<Rightarrow> Inr objs))"

subsection \<open>parse_elapsed_to_seconds (chart.py)\<close>

text \<open>
  \<^verbatim>\<open>_elapsed_re = ^\s*(\d+(?:\.\d+)?)(ns|ms|s|m)\s*$\<close> with \<^verbatim>\<open>IGNORECASE\<close>, matched
  against \<^verbatim>\<open>str(val).strip().lower()\<close>. The digits, then the fraction if a dot and
  a digit follow, are taken greedily (giving digits back never helps: a unit starts
  with a letter); the unit is the first alternative after which only white space is
  left. On ASCII text this is the library's behaviour; the decimal digits and the
  case mappings of other scripts are not modelled, and such text gives NaN here.
  \<^verbatim>\<open>float(s)\<close> is the double nearest to the decimal number, and the two arithmetic
  operations are IEEE division and multiplication by a constant that is a double.
\<close>

datatype pyval = PNone | PInt int | PFloat pyfloat | PStr ustr

definition py_strip :: "ustr \<Rightarrow> ustr" where
  "py_strip s = rev (dropWhile py_isspace (rev (dropWhile py_isspace s)))"

definition py_lower :: "ustr \<Rightarrow> ustr" where
  "py_lower s = map (\<lambda>c. if 65 \<le> c \<and> c \<le> 90 then c + 32 else c) s"

definition elapsed_units :: "ustr list" where
  "elapsed_units = [u ''ns'', u ''ms'', u ''s'', u ''m'']"

definition elapsed_re_match :: "ustr \<Rightarrow> (ustr \<times> ustr) option" where
  "elapsed_re_match s =
     (let s1 = dropWhile py_isspace s;
          ds = takeWhile is_digit s1;
          r1 = dropWhile is_digit s1;
          frac = (if r1 \<noteq> [] \<and> hd r1 = 46 then takeWhile is_digit (tl r1) else []);
          num = (if frac = [] then ds else ds @ 46 # frac);
          r2 = (if frac = [] then r1 else dropWhile is_digit (tl r1))
      in if ds = [] then None
         else case find (\<lambda>unit. startswith r2 unit
                               \<and> list_all py_isspace (drop (length unit) r2)) elapsed_units of
                None \<Rightarrow> None
              | Some unit \<Rightarrow> Some (num, unit))"

definition float_of_decimal :: "ustr \<Rightarrow> pyfloat" where
  \<comment> \<open>\<^verbatim>\<open>float(s)\<close> for digits with an optional fraction\<close>
  "float_of_decimal num =
     (let ip = takeWhile is_digit num;
          fp = drop (Suc (length ip)) num
      in round_frac (int (digits_value (ip @ fp))) (10 ^ length fp))"

definition float_div :: "pyfloat \<Rightarrow> int \<Rightarrow> pyfloat" where
  \<comment> \<open>\<^verbatim>\<open>x / k\<close> for a constant \<open>0 < k\<close>\<close>
  "float_div x k =
     (case x of
        Fin m e \<Rightarrow> if 0 \<le> e then round_frac (m * 2 ^ nat e) k
                   else round_frac m (k * 2 ^ nat (- e))
      | other \<Rightarrow> other)"

definition float_mul :: "pyfloat \<Rightarrow> int \<Rightarrow> pyfloat" where
  \<comment> \<open>\<^verbatim>\<open>x * k\<close> for a constant \<open>0 < k\<close>\<close>
  "float_mul x k =
     (case x of
        Fin m e \<Rightarrow> if 0 \<le> e then round_frac (m * k * 2 ^ nat e) 1
                   else round_frac (m * k) (2 ^ nat (- e))
      | other \<Rightarrow> other)"

definition parse_elapsed_to_seconds :: "pyval \<Rightarrow> py_error + pyfloat" where
  "parse_elapsed_to_seconds v =
     (case v of
        PNone \<Rightarrow> Inr NaN
      | PInt i \<Rightarrow>
          (case round_frac i 1 of
             Fin m e \<Rightarrow> Inr (Fin m e)
           | other \<Rightarrow> Inl OverflowError)
      | PFloat x \<Rightarrow> Inr x
      | PStr s \<Rightarrow>
          (case elapsed_re_match (py_lower (py_strip s)) of
             None \<Rightarrow> Inr NaN
           | Some (g1, unit) \<Rightarrow>
               (let num = float_of_decimal g1
                in if unit = u ''ns'' then Inr (float_div num 1000000000)
                   else if unit = u ''ms'' then Inr (float_div num 1000)
                   else if unit = u ''s'' then Inr num
                   else if unit = u ''m'' then Inr (float_mul num 60)
                   else Inr NaN)))"

text \<open>
  Three notions used only in the proofs about the round trip: the integer that
  \<^verbatim>\<open>format\<close> prints with \<open>prec\<close> decimals for the double \<open>m * 2 ^ e\<close>, an upper bound
  on such a double, and the characters \<^const>\<open>human_elapsed\<close> can write.
\<close>

definition scaled :: "nat \<Rightarrow> int \<Rightarrow> int \<Rightarrow> nat" where
  "scaled prec m e =
     nat (if 0 \<le> e then \<bar>m\<bar> * 2 ^ nat e * 10 ^ prec
          else rhe_frac (\<bar>m\<bar> * 10 ^ prec) (2 ^ nat (- e)))"

definition fbound :: "int \<Rightarrow> int \<Rightarrow> int \<Rightarrow> bool" where
  "fbound m s c = (if 0 \<le> s then m * 2 ^ nat s \<le> c else m \<le> c * 2 ^ nat (- s))"

definition elapsed_char :: "nat \<Rightarrow> bool" where
  "elapsed_char c = (is_digit c \<or> c = 46 \<or> c = 109 \<or> c = 110 \<or> c = 115)"

subsection \<open>The text of a ledger\<close>

text \<open>
  The text that \<^verbatim>\<open>append_json_array\<close> leaves after a first record \<open>e\<close> and the
  records \<open>es\<close> appended to it: the first record as \<^verbatim>\<open>json.dump([e], indent=2)\<close>
  wrote it, every later one at nesting level 0 after \<^verbatim>\<open>,\n\<close>, and the closing
  bracket, followed by a line end only as long as nothing was appended. A text is
  ASCII when all its code points are below 128, a record when its keys and its string
  values are.
\<close>

definition ledger_rest :: "jobj list \<Rightarrow> ustr" where
  "ledger_rest es = concat (map (\<lambda>x. u '',\<newline>'' @ obj_text 0 x @ u ''\<newline>'') es)"

definition ledger_body :: "jobj \<Rightarrow> jobj list \<Rightarrow> ustr" where
  "ledger_body e es = 91 # newline_indent 1 @ obj_text 1 e @ u ''\<newline>'' @ ledger_rest es"

definition ledger_text :: "jobj \<Rightarrow> jobj list \<Rightarrow> ustr" where
  "ledger_text e es = ledger_body e es @ 93 # (if es = [] then u ''\<newline>'' else [])"

definition ascii :: "ustr \<Rightarrow> bool" where
  "ascii s = list_all (\<lambda>c. c < 128) s"

definition ascii_obj :: "jobj \<Rightarrow> bool" where
  "ascii_obj e =
     list_all (\<lambda>kv. ascii (fst kv) \<and> (case snd kv of JStr s \<Rightarrow> ascii s | _ \<Rightarrow> True)) e"


definition chunks_text :: "chunk list \<Rightarrow> ustr" where
  \<comment> \<open>the chunks, joined, when none of them is an exception\<close>
  "chunks_text cs = concat (map (\<lambda>c. case c of Inl e \<Rightarrow> [] | Inr s \<Rightarrow> s) cs)"

definition ascii_chunk :: "chunk \<Rightarrow> bool" where
  "ascii_chunk c = (case c of Inl e \<Rightarrow> False | Inr s \<Rightarrow> ascii s)"
subsection \<open>Concrete inputs\<close>

definition example_tool :: tool where
  "example_tool = (\<lambda>cmd tmo f. \<lparr>returncode = 0, out_bytes = ''(step'', err_bytes = [],
                                  expired = False, wall_ns = 5\<rparr>)"

definition example_load :: json_load where
  "example_load = (\<lambda>b. LoadRaised)"

definition failing_tool :: tool where
  "failing_tool = (\<lambda>cmd tmo f. \<lparr>returncode = 1, out_bytes = [], err_bytes = ''no'',
                                  expired = False, wall_ns = 5\<rparr>)"

definition example_args :: args where
  "example_args =
     \<lparr>rare_file = u ''big.rare'', elab_timeout_sec = 60, debug = False, no_move = False,
      allow_int_real_subtyping = True, pipeline_hole_local = True, parse_hole_args = True,
      no_print_with_sharing = True\<rparr>"

definition example_job :: job where
  "example_job =
     \<lparr>root_name = u ''QF_UF'', alethe_path = u ''/b/QF_UF/a.smt2.alethe'',
      out_dir = u ''/o'', base_name = u ''a'', hole_name = u ''h1'', line_no = 1,
      smt2_for_slice = u ''/b/QF_UF/a.smt2'', results_path = u ''/o/results.json'',
      rel_root = drop 9, rel_out = drop 3\<rparr>"

definition example_result :: elab_result where
  "example_result =
     \<lparr>ok = False, success = 3, failed = 1, panicked = False, elapsed_ns = 60000000000,
      timed_out = False\<rparr>"

definition example_record :: jobj where
  "example_record = result_record example_job (u ''/o/a.smt2'') example_result (u ''1.00m'')"

definition out_files :: fs where
  \<comment> \<open>an output directory that holds nothing yet\<close>
  "out_files = Map.empty(u ''/o'' \<mapsto> Dir)"

definition empty_world :: world where
  "empty_world = \<lparr>files = out_files, printed = [], invoked = []\<rparr>"

definition cached_world :: world where
  \<comment> \<open>the log of the example job is there, its slice is not\<close>
  "cached_world =
     \<lparr>files = out_files(u ''/o/a__from-h1.out'' \<mapsto> File True True []), printed = [],
      invoked = []\<rparr>"

definition settled_world :: world where
  \<comment> \<open>what a run that elaborated the example job leaves: the slice, the problem and the
      log\<close>
  "settled_world =
     \<lparr>files = out_files(u ''/o/a__from-h1.smt2.alethe'' \<mapsto> File True True ''(step'',
                        u ''/o/a.smt2'' \<mapsto> File True True [],
                        u ''/o/a__from-h1.out'' \<mapsto> File True True []),
      printed = [], invoked = []\<rparr>"

definition writeonly_world :: world where
  \<comment> \<open>a log that can be written but not read\<close>
  "writeonly_world =
     \<lparr>files = out_files(u ''/o/a__from-h1.out'' \<mapsto> File False True []), printed = [],
      invoked = []\<rparr>"

text \<open>
  A ledger whose first record holds two letters of code point 233 (two bytes each in UTF-8), the record appended to it, and the file afterwards; a ledger cut off in
  the middle of its first write.
\<close>

definition ledger_path :: path where
  "ledger_path = u ''/o/results.json''"

definition bare_path :: path where
  \<comment> \<open>the default of \<^verbatim>\<open>--results\<close>, as it would be without a directory part\<close>
  "bare_path = u ''results.json''"

definition nonascii_record :: jobj where
  "nonascii_record = [(u ''a'', JStr [233, 233])]"

definition second_record :: jobj where
  "second_record = [(u ''b'', JInt 1)]"

definition nonascii_text :: ustr where
  "nonascii_text = u ''[\<newline>  {\<newline>    '' @ [34, 97, 34] @ u '': '' @ [34, 233, 233, 34]
                   @ u ''\<newline>  }\<newline>]\<newline>''"

definition nonascii_ledger :: bytes where
  "nonascii_ledger = ''[\<newline>  {\<newline>    '' @ [CHR 0x22, CHR ''a'', CHR 0x22] @ '': ''
                     @ [CHR 0x22, CHR 0xC3, CHR 0xA9, CHR 0xC3, CHR 0xA9, CHR 0x22]
                     @ ''\<newline>  }\<newline>]\<newline>''"

definition second_tail :: bytes where
  "second_tail = '',\<newline>{\<newline>  '' @ [CHR 0x22, CHR ''b'', CHR 0x22] @ '': 1\<newline>}\<newline>]''"

definition corrupted_ledger :: bytes where
  "corrupted_ledger = ''[\<newline>  {\<newline>    '' @ [CHR 0x22, CHR ''a'', CHR 0x22] @ '': ''
                      @ [CHR 0x22, CHR 0xC3, CHR 0xA9, CHR 0xC3, CHR 0xA9, CHR 0x22]
                      @ ''\<newline>  ,\<newline>{\<newline>  '' @ [CHR 0x22, CHR ''b'', CHR 0x22]
                      @ '': 1\<newline>}\<newline>]''"

definition corrupted_text :: ustr where
  "corrupted_text = u ''[\<newline>  {\<newline>    '' @ [34, 97, 34] @ u '': '' @ [34, 233, 233, 34]
                    @ u ''\<newline>  ,\<newline>{\<newline>  '' @ [34, 98, 34] @ u '': 1\<newline>}\<newline>]''"

definition truncated_ledger :: bytes where
  "truncated_ledger = ''[\<newline>  {\<newline>    '' @ [CHR 0x22, CHR ''a'', CHR 0x22] @ '': ''"

section \<open>Properties\<close>

subsection \<open>Evaluation\<close>

lemma char_of_nat_eq: "(char_of (n::nat) = c) = (n mod 256 = of_char c)"
  by (simp add: char_of_eq_iff take_bit_eq_mod)

lemma replicate_numeral: "replicate (numeral k) x = x # replicate (pred_numeral k) x"
  by (simp add: numeral_eq_Suc)

lemmas dumps_defs = list_text_def obj_text_def item_text_def val_text_def
  encode_basestring_def escape_char_def newline_indent_def py_str_def hex_digit_def

lemma u_eq_iff: "(u a = u b) = (a = b)"
proof -
  have "inj (of_char :: char \<Rightarrow> nat)" by (rule injI) simp
  then show ?thesis unfolding u_def by (rule inj_map_eq_map)
qed

lemma scan_back_0: "scan_back d 0 chunk = (0, chunk)"
  by (simp add: scan_back.simps)

subsection \<open>Directories\<close>

lemma makedirs_existing: "name \<noteq> [] \<Longrightarrow> f name = Some Dir \<Longrightarrow> makedirs f name = Inr f"
  by (subst makedirs.simps) simp

lemma makedirs_empty: "makedirs f [] = Inl FileNotFoundError"
  by (subst makedirs.simps) simp

lemma makedirs_Inr:
  "makedirs f name = Inr f0 \<Longrightarrow>
     name \<noteq> [] \<and> f0 name = Some Dir \<and> (\<forall>q. f q \<noteq> None \<longrightarrow> f0 q = f q)"
proof (induction f name arbitrary: f0 rule: makedirs.induct)
  case (1 f name)
  from "1.prems" have ne: "name \<noteq> []"
    by (subst (asm) makedirs.simps) (simp split: if_splits)
  show ?case
  proof (cases "f name")
    case None
    show ?thesis
    proof (cases "dirname name = [] \<or> dirname name = name")
      case True
      with "1.prems" None ne have "f0 = f(name \<mapsto> Dir)"
        by (subst (asm) makedirs.simps) auto
      with None ne show ?thesis by auto
    next
      case False
      with "1.prems" None ne obtain f1 where m: "makedirs f (dirname name) = Inr f1"
        and f0: "f0 = f1(name \<mapsto> Dir)"
        by (subst (asm) makedirs.simps) (auto split: sum.splits)
      from "1.IH" [OF ne None False m] have "\<forall>q. f q \<noteq> None \<longrightarrow> f1 q = f q" by simp
      with None ne f0 show ?thesis by auto
    qed
  next
    case (Some n)
    with "1.prems" ne have "n = Dir \<and> f0 = f"
      by (subst (asm) makedirs.simps) (cases n; simp)
    with Some ne show ?thesis by simp
  qed
qed

lemmas path_defs = dirname_def basename_def py_split_def rstrip_sep_def path_join_def Let_def
subsection \<open>The classification of an elaboration run\<close>

lemma classify_log_ok:
  "ok (classify_log rd ns tmo)
     = ((\<exists>data. rd = Inr data) \<and> \<not> timed_out (classify_log rd ns tmo)
        \<and> \<not> panicked (classify_log rd ns tmo) \<and> failed (classify_log rd ns tmo) = 0)"
  by (cases rd) (simp_all add: classify_log_def Let_def)

lemma classify_log_counts:
  "failed (classify_log (Inr data) ns tmo) = py_count data (u ''Check failed:'')
   \<and> panicked (classify_log (Inr data) ns tmo) = py_in (u ''panicked at'') data
   \<and> timed_out (classify_log rd ns tmo) = tmo"
  by (cases rd) (simp_all add: classify_log_def Let_def)

lemma read_log_Inr: "(\<exists>data. read_log f p = Inr data) = (\<exists>b. open_read f p = Inr b)"
  by (cases "open_read f p") (simp_all add: read_log_def)

text \<open>
  C1, as amended. For every run of \<^verbatim>\<open>run_elaborate\<close> that can create its log, whatever
  the tool writes and whether or not it times out, the call returns, and the \<open>ok\<close> it
  returns is true if and only if the log could be read back, \<open>timed_out\<close> is false,
  \<open>panicked\<close> is false and the failed count is 0. The flag \<open>timed_out\<close> is the
  timeout of the subprocess, and when the log is read back the failed count and
  \<open>panicked\<close> are what the log text holds.
\<close>

theorem run_elaborate_ok_iff:
  assumes m: "makedirs (files w) (dirname lp) = Inr f0"
    and o: "open_write f0 lp = Inr f1"
  shows "\<exists>r w'. run_elaborate carcara w sp sm lp rf air ap npws pha t = (Inr r, w')
           \<and> ok r = ((\<exists>b. open_read (files w') lp = Inr b)
                     \<and> \<not> timed_out r \<and> \<not> panicked r \<and> failed r = 0)
           \<and> timed_out r
               = (0 < t \<and> expired (carcara (elaborate_cmd sp sm rf air ap pha npws)
                                      (if t \<le> 0 then None else Some t) f1))
           \<and> (\<forall>data. read_log (files w') lp = Inr data \<longrightarrow>
                  failed r = py_count data (u ''Check failed:'')
                  \<and> panicked r = py_in (u ''panicked at'') data)"
proof -
  define cmd where "cmd = elaborate_cmd sp sm rf air ap pha npws"
  define proc where "proc = carcara cmd (if t \<le> 0 then None else Some t) f1"
  define tmo where "tmo = (0 < t \<and> expired proc)"
  define f2 where
    "f2 = put_contents f1 lp (out_bytes proc @ (if tmo then timeout_marker t else []))"
  define r where "r = classify_log (read_log f2 lp) (wall_ns proc) tmo"
  have run: "run_elaborate carcara w sp sm lp rf air ap npws pha t
               = (Inr r, w\<lparr>files := f2, invoked := invoked w @ [cmd]\<rparr>)"
    by (simp add: run_elaborate_def m o Let_def cmd_def proc_def tmo_def f2_def r_def)
  have "ok r = ((\<exists>b. open_read f2 lp = Inr b)
                \<and> \<not> timed_out r \<and> \<not> panicked r \<and> failed r = 0)"
    unfolding r_def by (subst classify_log_ok) (simp add: read_log_Inr)
  moreover have "timed_out r = tmo"
    by (simp add: r_def classify_log_counts)
  moreover have "\<forall>data. read_log f2 lp = Inr data \<longrightarrow>
      failed r = py_count data (u ''Check failed:'')
      \<and> panicked r = py_in (u ''panicked at'') data"
    by (simp add: r_def classify_log_counts)
  ultimately show ?thesis
    unfolding run by (simp add: tmo_def proc_def cmd_def)
qed

lemma example_paths:
  "slice_path example_job = u ''/o/a__from-h1.smt2.alethe''"
  "out_log_path example_job = u ''/o/a__from-h1.out''"
  "smt2_target example_job = u ''/o/a.smt2''"
  "dirname (u ''/o/a__from-h1.smt2.alethe'') = u ''/o''"
  "dirname (u ''/o/a__from-h1.out'') = u ''/o''"
  "dirname (u ''/o/results.json'') = u ''/o''"
  by (simp_all add: slice_path_def out_log_path_def smt2_target_def example_job_def path_defs
      u_def)

lemma makedirs_out:
  "f (u ''/o'') = Some Dir \<Longrightarrow> makedirs f (u ''/o'') = Inr f"
  by (rule makedirs_existing) (simp_all add: u_def)

lemma out_files_dir:
  "out_files (u ''/o'') = Some Dir"
  "(out_files(u ''/o/a__from-h1.out'' \<mapsto> n)) (u ''/o'') = Some Dir"
  "(out_files(u ''/o/results.json'' \<mapsto> n)) (u ''/o'') = Some Dir"
  by (simp_all add: out_files_def u_def)

theorem run_elaborate_ok_iff_witness:
  "makedirs (files empty_world) (dirname (u ''/o/a__from-h1.out'')) = Inr out_files
   \<and> open_write out_files (u ''/o/a__from-h1.out'')
       = Inr (out_files(u ''/o/a__from-h1.out'' \<mapsto> File True True []))
   \<and> (\<exists>r w'. run_elaborate example_tool empty_world (u ''/o/a__from-h1.smt2.alethe'')
                 (u ''/o/a.smt2'') (u ''/o/a__from-h1.out'') (u ''big.rare'')
                 True True True True 60 = (Inr r, w')
            \<and> ok r
            \<and> open_read (files w') (u ''/o/a__from-h1.out'') = Inr ''(step''
            \<and> \<not> timed_out r \<and> \<not> panicked r \<and> failed r = 0)"
proof -
  have m: "makedirs (files empty_world) (dirname (u ''/o/a__from-h1.out'')) = Inr out_files"
    by (simp add: example_paths empty_world_def makedirs_out out_files_dir)
  have o: "open_write out_files (u ''/o/a__from-h1.out'')
       = Inr (out_files(u ''/o/a__from-h1.out'' \<mapsto> File True True []))"
    by (simp add: open_write_def out_files_def u_def)
  from run_elaborate_ok_iff [OF m o, of example_tool "u ''/o/a__from-h1.smt2.alethe''"
      "u ''/o/a.smt2''" "u ''big.rare''" True True True True 60]
  obtain r w' where run: "run_elaborate example_tool empty_world (u ''/o/a__from-h1.smt2.alethe'')
                 (u ''/o/a.smt2'') (u ''/o/a__from-h1.out'') (u ''big.rare'')
                 True True True True 60 = (Inr r, w')"
    and iff: "ok r = ((\<exists>b. open_read (files w') (u ''/o/a__from-h1.out'') = Inr b)
                     \<and> \<not> timed_out r \<and> \<not> panicked r \<and> failed r = 0)"
    and tm: "timed_out r
               = (0 < (60::int) \<and> expired (example_tool
                    (elaborate_cmd (u ''/o/a__from-h1.smt2.alethe'') (u ''/o/a.smt2'')
                       (u ''big.rare'') True True True True)
                    (if (60::int) \<le> 0 then None else Some 60)
                    (out_files(u ''/o/a__from-h1.out'' \<mapsto> File True True []))))"
    and cnt: "\<forall>data. read_log (files w') (u ''/o/a__from-h1.out'') = Inr data \<longrightarrow>
                  failed r = py_count data (u ''Check failed:'')
                  \<and> panicked r = py_in (u ''panicked at'') data"
    by blast
  have fw: "files w' = out_files(u ''/o/a__from-h1.out'' \<mapsto> File True True ''(step'')"
    using run
    by (simp add: run_elaborate_def m o Let_def example_tool_def put_contents_def)
      (auto simp: out_files_def)
  have rd: "open_read (files w') (u ''/o/a__from-h1.out'') = Inr ''(step''"
    by (simp add: fw open_read_def)
  have dec: "read_log (files w') (u ''/o/a__from-h1.out'') = Inr (u ''(step'')"
    by (simp only: read_log_def rd sum.case) (simp add: utf8_head_def u_def)
  have nt: "\<not> timed_out r" using tm by (simp add: example_tool_def)
  from cnt dec have "failed r = py_count (u ''(step'') (u ''Check failed:'')"
    "panicked r = py_in (u ''panicked at'') (u ''(step'')" by auto
  then have fp: "failed r = 0" "\<not> panicked r" by (simp_all add: u_def)
  from iff rd nt fp have "ok r" by simp
  with m o run rd nt fp show ?thesis by blast
qed

text \<open>
  C1 as stated fails: when the log can be written but not read back, \<open>ok\<close> is false
  although \<open>timed_out\<close> is false, \<open>panicked\<close> is false and the failed count is 0.
\<close>

theorem run_elaborate_unreadable_log:
  "\<exists>r w'. run_elaborate example_tool writeonly_world (u ''/o/a__from-h1.smt2.alethe'')
             (u ''/o/a.smt2'') (u ''/o/a__from-h1.out'') (u ''big.rare'')
             True True True True 60 = (Inr r, w')
         \<and> \<not> ok r \<and> \<not> timed_out r \<and> \<not> panicked r \<and> failed r = 0"
proof -
  have m: "makedirs (files writeonly_world) (dirname (u ''/o/a__from-h1.out''))
             = Inr (files writeonly_world)"
    by (simp add: example_paths writeonly_world_def makedirs_out out_files_dir u_eq_iff)
  have o: "open_write (files writeonly_world) (u ''/o/a__from-h1.out'')
             = Inr (files writeonly_world)"
    by (simp add: open_write_def writeonly_world_def)
  have rd: "read_log (put_contents (files writeonly_world) (u ''/o/a__from-h1.out'') b)
              (u ''/o/a__from-h1.out'') = Inl PermissionError" for b
    by (simp add: read_log_def open_read_def put_contents_def writeonly_world_def)
  show ?thesis
    by (simp add: run_elaborate_def m o Let_def rd classify_log_def example_tool_def)
qed
text \<open>
  C7. \<^verbatim>\<open>human_elapsed\<close> maps exactly 500,000 ns to \<^verbatim>\<open>"500000ns"\<close>, exactly
  1,000,000 ns to \<^verbatim>\<open>"1ms"\<close> and exactly 60,000,000,000 ns to \<^verbatim>\<open>"1.00m"\<close>.
  Both quotients are the double 1.0, that is \<open>2\<^sup>5\<^sup>2 \<sqdot> 2\<^sup>-\<^sup>5\<^sup>2\<close>.
\<close>

lemma truediv_1ms: "int_truediv 1000000 1000000 = Inr (Fin 4503599627370496 (- 52))"
  apply (simp only: int_truediv_def round_frac_def ilog2_frac_def rhe_frac_def Let_def)
  apply (simp add: bit_length.simps)
  done

lemma truediv_1m: "int_truediv 60000000000 60000000000 = Inr (Fin 4503599627370496 (- 52))"
  apply (simp only: int_truediv_def round_frac_def ilog2_frac_def rhe_frac_def Let_def)
  apply (simp add: bit_length.simps)
  done

lemma format_f0_one: "format_f 0 (Fin 4503599627370496 (- 52)) = u ''1''"
  apply (simp only: format_f_def zero_pad_def rhe_frac_def Let_def pyfloat.case)
  apply (simp add: digits.simps u_def)
  done

lemma format_f2_one: "format_f 2 (Fin 4503599627370496 (- 52)) = u ''1.00''"
  apply (simp only: format_f_def zero_pad_def rhe_frac_def Let_def pyfloat.case)
  apply (simp add: digits.simps u_def)
  done

theorem human_elapsed_boundaries:
  "human_elapsed 500000 = Inr (u ''500000ns'')
   \<and> human_elapsed 1000000 = Inr (u ''1ms'')
   \<and> human_elapsed 60000000000 = Inr (u ''1.00m'')"
proof -
  have a: "human_elapsed 500000 = Inr (u ''500000ns'')"
    by (simp add: human_elapsed_def int_repr_def py_str_def digits.simps u_def)
  have b: "human_elapsed 1000000 = Inr (u ''1ms'')"
    by (simp add: human_elapsed_def truediv_1ms format_f0_one u_def)
  have c: "human_elapsed 60000000000 = Inr (u ''1.00m'')"
    by (simp add: human_elapsed_def truediv_1m format_f2_one u_def)
  from a b c show ?thesis by blast
qed

subsection \<open>The hole scanner\<close>

lemma utf8_decode_ignore_ascii:
  "\<forall>b\<in>set bs. (of_char b :: nat) < 128 \<Longrightarrow> utf8_decode_ignore bs = map of_char bs"
  by (induction bs) (auto simp: utf8_head_def)

lemma startswith_single: "startswith s [c] = (s \<noteq> [] \<and> hd s = c)"
  by (cases s) auto

lemma py_in_single: "py_in [c] s = (c \<in> set s)"
  by (induction s) (auto simp: startswith_single)

lemma scan_holes_filter:
  "scan_holes ls = filter (\<lambda>(n, l). 46 \<notin> set n) (marker_occurrences ls)"
  by (induction ls rule: scan_holes.induct)
     (auto simp: marker_occurrences_def line_marker_def map_filter_simps py_in_single u_def
           split: option.splits)

lemma uniq_holes_names:
  "fst ` set (uniq_holes seen hs) = fst ` set hs - seen"
  by (induction hs arbitrary: seen) (auto simp: image_iff)

lemma uniq_holes_distinct: "distinct (map fst (uniq_holes seen hs))"
proof (induction hs arbitrary: seen)
  case Nil
  then show ?case by simp
next
  case (Cons h hs)
  have "fst h \<notin> fst ` set (uniq_holes (insert (fst h) seen) hs)"
    by (simp add: uniq_holes_names)
  with Cons show ?case by simp
qed

lemma uniq_holes_subset: "set (uniq_holes seen hs) \<subseteq> set hs"
  by (induction hs arbitrary: seen) auto

lemma uniq_holes_first:
  "(n, l) \<in> set (uniq_holes seen hs) \<Longrightarrow>
     \<exists>pre post. hs = pre @ (n, l) # post \<and> n \<notin> fst ` set pre"
proof (induction hs arbitrary: seen)
  case Nil
  then show ?case by simp
next
  case (Cons h hs)
  show ?case
  proof (cases "h = (n, l)")
    case True
    then have "h # hs = [] @ (n, l) # hs \<and> n \<notin> fst ` set []" by simp
    then show ?thesis by blast
  next
    case False
    have "\<exists>s. (n, l) \<in> set (uniq_holes s hs) \<and> (fst h \<notin> seen \<longrightarrow> fst h \<in> s)"
      using Cons.prems False by (auto split: if_splits)
    then obtain s where s: "(n, l) \<in> set (uniq_holes s hs)" "fst h \<notin> seen \<longrightarrow> fst h \<in> s"
      by blast
    from Cons.IH [OF s(1)] obtain pre post where
      pp: "hs = pre @ (n, l) # post" "n \<notin> fst ` set pre" by blast
    have "n \<noteq> fst h"
    proof
      assume eq: "n = fst h"
      show False
      proof (cases "fst h \<in> seen")
        case True
        have "n \<in> fst ` set (uniq_holes seen (h # hs))"
          using Cons.prems by force
        then show False using True eq by (simp add: uniq_holes_names del: uniq_holes.simps)
      next
        case False
        then have "(n, l) \<in> set (uniq_holes (insert (fst h) seen) hs)"
          using Cons.prems \<open>h \<noteq> (n, l)\<close> by simp
        then have "n \<in> fst ` set (uniq_holes (insert (fst h) seen) hs)" by force
        then show False using eq by (simp add: uniq_holes_names)
      qed
    qed
    then have "h # hs = (h # pre) @ (n, l) # post \<and> n \<notin> fst ` set (h # pre)"
      using pp by simp
    then show ?thesis by blast
  qed
qed

lemma line_marker_snd: "line_marker x = Some (n, l) \<Longrightarrow> l = fst x"
  by (auto simp: line_marker_def split: prod.splits if_splits)

lemma marker_occurrences_Cons:
  "marker_occurrences (x # ls) =
     (case line_marker x of None \<Rightarrow> marker_occurrences ls
      | Some h \<Rightarrow> h # marker_occurrences ls)"
  by (simp add: marker_occurrences_def map_filter_simps split: option.splits)

lemma marker_occurrences_lineno:
  "(n, l) \<in> set (marker_occurrences ls) \<Longrightarrow> l \<in> fst ` set ls"
  by (induction ls)
     (auto simp: marker_occurrences_Cons marker_occurrences_def map_filter_simps
           dest: line_marker_snd split: option.splits)

lemma sorted_marker_occurrences:
  "sorted (map fst ls) \<Longrightarrow> sorted (map snd (marker_occurrences ls))"
proof (induction ls)
  case Nil
  then show ?case by (simp add: marker_occurrences_def map_filter_simps)
next
  case (Cons x ls)
  then have le: "\<forall>y\<in>set ls. fst x \<le> fst y" and s: "sorted (map snd (marker_occurrences ls))"
    by auto
  show ?case
  proof (cases "line_marker x")
    case None
    then show ?thesis using s by (simp add: marker_occurrences_Cons)
  next
    case (Some h)
    then have "snd h = fst x" by (cases h) (auto dest: line_marker_snd)
    moreover have "\<forall>k\<in>set (marker_occurrences ls). fst x \<le> snd k"
      using le marker_occurrences_lineno by fastforce
    ultimately show ?thesis using s Some by (simp add: marker_occurrences_Cons)
  qed
qed

lemma sorted_enumerate: "sorted (map fst (enumerate k xs))"
  by simp

lemma scan_holes_sorted:
  "sorted (map fst ls) \<Longrightarrow> sorted (map snd (scan_holes ls))"
  unfolding scan_holes_filter
  using sorted_marker_occurrences [of ls] sorted_filter [of snd "marker_occurrences ls"]
  by simp

lemma read_file_lines_sorted:
  assumes "read_file_lines f p = Inr ls"
  shows "sorted (map fst ls)"
proof -
  from assms obtain xs where "ls = enumerate 1 xs"
    by (auto simp: read_file_lines_def split: sum.splits)
  then show ?thesis by (simp only: map_fst_enumerate sorted_upt)
qed

text \<open>
  C3. For a certificate that can be read, the holes that \<^verbatim>\<open>holes_in_alethe\<close> returns
  have pairwise different names, none of them holds a \<^verbatim>\<open>.\<close>, and each name comes
  with the least line number among its marker occurrences. In particular marker
  occurrences for \<^verbatim>\<open>h1\<close>, \<^verbatim>\<open>h1.sub\<close>, \<^verbatim>\<open>h1\<close>, \<^verbatim>\<open>h2\<close>, in that order, give exactly
  \<^verbatim>\<open>h1\<close> at its first line and \<^verbatim>\<open>h2\<close>.
\<close>

theorem holes_in_alethe_dedup:
  assumes rd: "read_file_lines f p = Inr ls"
  shows "\<exists>hs. holes_in_alethe f p = Inr hs
           \<and> distinct (map fst hs)
           \<and> (\<forall>(n, l)\<in>set hs. 46 \<notin> set n)
           \<and> (\<forall>(n, l)\<in>set hs. (n, l) \<in> set (marker_occurrences ls)
                 \<and> (\<forall>l'. (n, l') \<in> set (marker_occurrences ls) \<longrightarrow> l \<le> l'))
           \<and> (\<forall>a b c d. marker_occurrences ls
                   = [(u ''h1'', a), (u ''h1.sub'', b), (u ''h1'', c), (u ''h2'', d)]
                 \<longrightarrow> hs = [(u ''h1'', a), (u ''h2'', d)])"
proof -
  define occ where "occ = marker_occurrences ls"
  define hs where "hs = uniq_holes {} (scan_holes ls)"
  have h: "holes_in_alethe f p = Inr hs"
    by (simp add: holes_in_alethe_def rd hs_def)
  have sub: "set hs \<subseteq> set (scan_holes ls)"
    unfolding hs_def by (rule uniq_holes_subset)
  have d: "distinct (map fst hs)"
    unfolding hs_def by (rule uniq_holes_distinct)
  have nodot: "\<forall>(n, l)\<in>set hs. 46 \<notin> set n"
    using sub by (auto simp: scan_holes_filter)
  have srt: "sorted (map snd (scan_holes ls))"
    using rd by (intro scan_holes_sorted read_file_lines_sorted)
  have first: "(n, l) \<in> set occ \<and> (\<forall>l'. (n, l') \<in> set occ \<longrightarrow> l \<le> l')"
    if mem: "(n, l) \<in> set hs" for n l
  proof -
    from mem sub have in_scan: "(n, l) \<in> set (scan_holes ls)" by blast
    then have in_occ: "(n, l) \<in> set occ" and nd: "46 \<notin> set n"
      by (auto simp: scan_holes_filter occ_def)
    from mem obtain pre post where
      pp: "scan_holes ls = pre @ (n, l) # post" "n \<notin> fst ` set pre"
      unfolding hs_def using uniq_holes_first by blast
    have "l \<le> l'" if "(n, l') \<in> set occ" for l'
    proof -
      from that nd have "(n, l') \<in> set (scan_holes ls)"
        by (simp add: scan_holes_filter occ_def)
      with pp have "(n, l') = (n, l) \<or> (n, l') \<in> set post" by force
      moreover have "\<forall>k\<in>set post. l \<le> snd k"
        using srt pp(1) by (simp add: sorted_append)
      ultimately show ?thesis by force
    qed
    with in_occ show ?thesis by blast
  qed
  have ex: "hs = [(u ''h1'', a), (u ''h2'', d)]"
    if "marker_occurrences ls
          = [(u ''h1'', a), (u ''h1.sub'', b), (u ''h1'', c), (u ''h2'', d)]" for a b c d
    unfolding hs_def scan_holes_filter that by (simp add: u_def)
  from h d nodot first ex show ?thesis unfolding occ_def by blast
qed


lemma example_read:
  "read_file_lines (Map.empty(u ''c'' \<mapsto> File True True example_cert)) (u ''c'') = Inr example_lines"
proof -
  have "utf8_decode_ignore example_cert = map of_char example_cert"
    by (rule utf8_decode_ignore_ascii) (simp add: example_cert_def)
  then show ?thesis
    by (simp add: read_file_lines_def open_read_def example_cert_def example_lines_def u_def
        enumerate_eq_zip upt_rec)
qed

lemma example_occurrences:
  "marker_occurrences example_lines
     = [(u ''h1'', 1), (u ''h1.sub'', 2), (u ''h1'', 3), (u ''h2'', 4)]"
  by (simp add: marker_occurrences_def map_filter_simps line_marker_def example_lines_def
      HOLE_MARKER_def u_def step_name_at_def name_char_def py_isspace_def)

theorem holes_in_alethe_dedup_witness:
  "holes_in_alethe (Map.empty(u ''c'' \<mapsto> File True True example_cert)) (u ''c'')
     = Inr [(u ''h1'', 1), (u ''h2'', 4)]"
  using holes_in_alethe_dedup [OF example_read] example_occurrences by auto

text \<open>
  C8. The specification has an unreadable file give an empty hole list. In
  \<^verbatim>\<open>script.py\<close> nothing catches the exception of \<^verbatim>\<open>open\<close>: \<^verbatim>\<open>holes_in_alethe\<close>
  raises it, here for a certificate without read permission, and \<^verbatim>\<open>main\<close> does not
  catch it either. The same scan in \<^verbatim>\<open>slice_to_json.py\<close> does skip such a file.
\<close>

lemma holes_in_alethe_raises:
  "open_read f p = Inl e \<Longrightarrow> holes_in_alethe f p = Inl e"
  by (simp add: holes_in_alethe_def read_file_lines_def)

lemma scan_file_commands_skips:
  "open_read f p = Inl e \<Longrightarrow> scan_file_commands f p = []"
  by (simp add: scan_file_commands_def read_file_lines_def)

theorem holes_in_alethe_unreadable:
  "holes_in_alethe (Map.empty(u ''c'' \<mapsto> File False True example_cert)) (u ''c'')
     = Inl PermissionError
   \<and> scan_file_commands (Map.empty(u ''c'' \<mapsto> File False True example_cert)) (u ''c'') = []"
  by (simp add: holes_in_alethe_def scan_file_commands_def read_file_lines_def open_read_def)

subsection \<open>The slice executor\<close>

lemma open_write_Inr:
  "open_write f p = Inr f' \<Longrightarrow> \<exists>r w. f' = f(p \<mapsto> File r w [])"
  by (auto simp: open_write_def split: option.splits fnode.splits if_splits)

lemma stderr_path_neq: "out @ u ''.stderr'' \<noteq> out"
  by (simp add: u_def)

text \<open>
  C5. When the directory of the slice is there or can be made and both output files
  can be opened, so that \<^verbatim>\<open>run_slice\<close> runs the tool, it
  returns, and reports success if and only if the exit code is zero and the artifact
  file is not empty; on failure it returns the path of the stderr file; on success
  with debug off an empty stderr file is removed, and otherwise the file stays.
\<close>

theorem run_slice_success:
  assumes m: "makedirs (files w) (dirname out) = Inr f0"
    and o1: "open_write f0 out = Inr f1"
    and o2: "open_write f1 (out @ u ''.stderr'') = Inr f2"
  shows "\<exists>ok_slice errp w'.
           run_slice carcara w h ap sp out pha npws dbg = (Inr (ok_slice, errp), w')
         \<and> invoked w' = invoked w @ [slice_cmd h ap sp pha npws]
         \<and> getsize (files w') out
             = Inr (length (out_bytes (carcara (slice_cmd h ap sp pha npws) None f2)))
         \<and> ok_slice = (returncode (carcara (slice_cmd h ap sp pha npws) None f2) = 0
                        \<and> length (out_bytes (carcara (slice_cmd h ap sp pha npws) None f2)) \<noteq> 0)
         \<and> errp = (if ok_slice then None else Some (out @ u ''.stderr''))
         \<and> (if ok_slice \<and> \<not> dbg \<and> err_bytes (carcara (slice_cmd h ap sp pha npws) None f2) = []
             then files w' (out @ u ''.stderr'') = None
             else getsize (files w') (out @ u ''.stderr'')
                  = Inr (length (err_bytes (carcara (slice_cmd h ap sp pha npws) None f2))))"
proof -
  define cmd where "cmd = slice_cmd h ap sp pha npws"
  define proc where "proc = carcara cmd None f2"
  define sp' where "sp' = out @ u ''.stderr''"
  have ne: "sp' \<noteq> out" unfolding sp'_def by (rule stderr_path_neq)
  from open_write_Inr [OF o1] obtain r1 x1 where f1: "f1 = f0(out \<mapsto> File r1 x1 [])"
    by blast
  from open_write_Inr [OF o2] obtain r2 x2 where f2: "f2 = f1(sp' \<mapsto> File r2 x2 [])"
    unfolding sp'_def by blast
  define f3 where "f3 = put_contents (put_contents f2 out (out_bytes proc)) sp' (err_bytes proc)"
  have f3: "f3 = f2(out \<mapsto> File r1 x1 (out_bytes proc), sp' \<mapsto> File r2 x2 (err_bytes proc))"
    using ne by (simp add: f3_def put_contents_def f1 f2)
  have g1: "getsize f3 out = Inr (length (out_bytes proc))"
    using ne by (simp add: f3 getsize_def)
  have g2: "getsize f3 sp' = Inr (length (err_bytes proc))"
    by (simp add: f3 getsize_def)
  have g3: "getsize (f3(sp' := None)) out = Inr (length (out_bytes proc))"
    using ne by (simp add: f3 getsize_def)
  define w0 where "w0 = w\<lparr>files := f0\<rparr>"
  have files_dbg: "files (if dbg then w0\<lparr>printed := printed w0 @ [DebugCmd cmd out]\<rparr> else w0) = f0"
    by (simp add: w0_def)
  have inv_dbg: "invoked (if dbg then w0\<lparr>printed := printed w0 @ [DebugCmd cmd out]\<rparr> else w0) = invoked w"
    by (simp add: w0_def)
  show ?thesis
    unfolding run_slice_def m sum.case Let_def cmd_def [symmetric] sp'_def [symmetric]
      w0_def [symmetric] files_dbg o1
      o2 [unfolded sp'_def [symmetric]] proc_def [symmetric] f3_def [symmetric] g1 g2
    using g1 g2 g3 inv_dbg by (auto simp: f3)
qed


theorem run_slice_success_witness:
  "makedirs (files empty_world) (dirname (u ''/o/s'')) = Inr out_files
   \<and> open_write out_files (u ''/o/s'') = Inr (out_files(u ''/o/s'' \<mapsto> File True True []))
   \<and> open_write (out_files(u ''/o/s'' \<mapsto> File True True [])) (u ''/o/s'' @ u ''.stderr'')
     = Inr (out_files(u ''/o/s'' \<mapsto> File True True [], u ''/o/s.stderr'' \<mapsto> File True True []))
   \<and> (\<exists>w'. run_slice example_tool empty_world
              (u ''h1'') (u ''c'') (u ''p'') (u ''/o/s'') True True False
            = (Inr (True, None), w')
          \<and> files w' (u ''/o/s.stderr'') = None
          \<and> getsize (files w') (u ''/o/s'') = Inr 5)"
proof -
  have d: "dirname (u ''/o/s'') = u ''/o''" by (simp add: path_defs u_def)
  have m: "makedirs (files empty_world) (dirname (u ''/o/s'')) = Inr out_files"
    by (simp add: d empty_world_def makedirs_out out_files_dir)
  have o1: "open_write out_files (u ''/o/s'')
     = Inr (out_files(u ''/o/s'' \<mapsto> File True True []))"
    by (simp add: open_write_def out_files_def u_def)
  have o2: "open_write (out_files(u ''/o/s'' \<mapsto> File True True [])) (u ''/o/s'' @ u ''.stderr'')
     = Inr (out_files(u ''/o/s'' \<mapsto> File True True [], u ''/o/s.stderr'' \<mapsto> File True True []))"
    by (simp add: open_write_def out_files_def u_def)
  have e: "u ''/o/s'' @ u ''.stderr'' = u ''/o/s.stderr''"
    by (simp add: u_def)
  from run_slice_success [OF m o1 o2,
      of example_tool
         "u ''h1''" "u ''c''" "u ''p''" True True False]
  have "\<exists>w'. run_slice example_tool empty_world
              (u ''h1'') (u ''c'') (u ''p'') (u ''/o/s'') True True False
            = (Inr (True, None), w')
          \<and> files w' (u ''/o/s.stderr'') = None
          \<and> getsize (files w') (u ''/o/s'') = Inr 5"
    unfolding e by (auto simp: example_tool_def)
  with m o1 o2 show ?thesis by blast
qed
subsection \<open>The cache of elaboration logs\<close>

lemma json_error_cached_line: "json_error (cached_line j) = None"
  by (simp add: cached_line_def val_error_def)

lemma slice_stage_cached:
  "path_exists (files w) (slice_path j) \<Longrightarrow> slice_stage carcara a w j = (Next, w)"
  by (simp add: slice_stage_def)

lemma transfer_stage_in_place:
  "isfile (files w) (smt2_target j)
     \<Longrightarrow> transfer_stage a w j src = (Inr (smt2_target j, src), w)"
  by (simp add: transfer_stage_def Let_def)

lemma transfer_stage_world:
  assumes "transfer_stage a w j src = (r, w1)"
  shows "invoked w1 = invoked w
         \<and> (printed w1 = printed w
            \<or> debug a \<and> (\<exists>act. printed w1 = printed w @
                  [JsonLine [(u ''debug'', JStr (u ''smt2_transfer'')),
                             (u ''action'', JStr act),
                             (u ''to'', JStr (rel_out j (smt2_target j)))]]))"
  using assms
  by (auto simp: transfer_stage_def Let_def split: if_splits sum.splits prod.splits)

lemma elaborate_stage_cached:
  assumes "path_exists (files w) (out_log_path j)"
  shows "elaborate_stage carcara load a w j dest
           = (Continue, w\<lparr>printed := printed w @ [JsonLine (cached_line j)]\<rparr>)"
  using assms by (simp add: elaborate_stage_def print_json_def json_error_cached_line)

text \<open>
  C4, as amended. When the orchestrator reaches a job whose slice file and elaboration
  log both exist, and the problem file is in the output directory already, or is
  moved or copied there without an error and without touching the log or the ledger,
  it emits one status line, with status \<^verbatim>\<open>ok\<close> and \<^verbatim>\<open>cached\<close> true (after the debug line of
  the transfer, if debug is on), runs no command and leaves the ledger as it is.
\<close>

theorem process_job_cached:
  assumes slice: "path_exists (files w) (slice_path j)"
    and log: "path_exists (files w) (out_log_path j)"
    and tr: "transfer_stage a w j src = (Inr (dest, src'), w1)"
    and keep: "files w1 (out_log_path j) = files w (out_log_path j)"
      "files w1 (results_path j) = files w (results_path j)"
  shows "\<exists>w' dbg. process_job carcara load a w j src = (Inr src', w')
           \<and> printed w' = printed w @ dbg @ [JsonLine (cached_line j)]
           \<and> (dbg = []
               \<or> debug a \<and> (\<exists>act. dbg =
                     [JsonLine [(u ''debug'', JStr (u ''smt2_transfer'')),
                                (u ''action'', JStr act),
                                (u ''to'', JStr (rel_out j (smt2_target j)))]]))
           \<and> map_of (cached_line j) (u ''status'') = Some (JStr (u ''ok''))
           \<and> map_of (cached_line j) (u ''cached'') = Some (JBool True)
           \<and> invoked w' = invoked w
           \<and> files w' = files w1
           \<and> files w' (results_path j) = files w (results_path j)"
proof -
  have l1: "path_exists (files w1) (out_log_path j)"
    using log keep(1) by (simp add: path_exists_def)
  have run: "process_job carcara load a w j src
               = (Inr src', w1\<lparr>printed := printed w1 @ [JsonLine (cached_line j)]\<rparr>)"
    by (simp add: process_job_def slice_stage_cached [OF slice] tr
        elaborate_stage_cached [OF l1])
  from transfer_stage_world [OF tr]
  have inv: "invoked w1 = invoked w"
    and pr: "printed w1 = printed w
            \<or> debug a \<and> (\<exists>act. printed w1 = printed w @
                  [JsonLine [(u ''debug'', JStr (u ''smt2_transfer'')),
                             (u ''action'', JStr act),
                             (u ''to'', JStr (rel_out j (smt2_target j)))]])"
    by auto
  have st: "map_of (cached_line j) (u ''status'') = Some (JStr (u ''ok''))"
    "map_of (cached_line j) (u ''cached'') = Some (JBool True)"
    by (simp_all add: cached_line_def u_def)
  from pr show ?thesis
  proof
    assume "printed w1 = printed w"
    then show ?thesis unfolding run using inv st keep(2)
      by (intro exI [of _ "w1\<lparr>printed := printed w1 @ [JsonLine (cached_line j)]\<rparr>"]
          exI [of _ "[]"]) simp
  next
    assume "debug a \<and> (\<exists>act. printed w1 = printed w @
                  [JsonLine [(u ''debug'', JStr (u ''smt2_transfer'')),
                             (u ''action'', JStr act),
                             (u ''to'', JStr (rel_out j (smt2_target j)))]])"
    then obtain act where d: "debug a" and p: "printed w1 = printed w @
                  [JsonLine [(u ''debug'', JStr (u ''smt2_transfer'')),
                             (u ''action'', JStr act),
                             (u ''to'', JStr (rel_out j (smt2_target j)))]]"
      by blast
    show ?thesis unfolding run using inv st keep(2) d p
      by (intro exI [of _ "w1\<lparr>printed := printed w1 @ [JsonLine (cached_line j)]\<rparr>"]
          exI [of _ "[JsonLine [(u ''debug'', JStr (u ''smt2_transfer'')),
                             (u ''action'', JStr act),
                             (u ''to'', JStr (rel_out j (smt2_target j)))]]"]) simp
  qed
qed

lemma settled_files:
  "path_exists (files settled_world) (u ''/o/a__from-h1.smt2.alethe'')"
  "path_exists (files settled_world) (u ''/o/a__from-h1.out'')"
  "isfile (files settled_world) (u ''/o/a.smt2'')"
  by (simp_all add: settled_world_def path_exists_def isfile_def u_eq_iff)

theorem process_job_cached_witness:
  "path_exists (files settled_world) (slice_path example_job)
   \<and> path_exists (files settled_world) (out_log_path example_job)
   \<and> transfer_stage example_args settled_world example_job None
       = (Inr (u ''/o/a.smt2'', None), settled_world)
   \<and> process_job example_tool example_load example_args settled_world example_job None
       = (Inr None, settled_world\<lparr>printed := [JsonLine (cached_line example_job)]\<rparr>)"
proof -
  have s: "path_exists (files settled_world) (slice_path example_job)"
    and l: "path_exists (files settled_world) (out_log_path example_job)"
    by (simp_all add: example_paths settled_files)
  have t: "transfer_stage example_args settled_world example_job None
             = (Inr (u ''/o/a.smt2'', None), settled_world)"
    using transfer_stage_in_place [of settled_world example_job example_args None]
    by (simp add: example_paths settled_files)
  from process_job_cached [OF s l t, of example_tool example_load]
  obtain w' dbg where
    run: "process_job example_tool example_load example_args settled_world example_job None
            = (Inr None, w')"
    and pr: "printed w' = printed settled_world @ dbg @ [JsonLine (cached_line example_job)]"
    and dbg: "dbg = [] \<or> debug example_args \<and> (\<exists>act. dbg =
                     [JsonLine [(u ''debug'', JStr (u ''smt2_transfer'')),
                                (u ''action'', JStr act),
                                (u ''to'', JStr (rel_out example_job (smt2_target example_job)))]])"
    and inv: "invoked w' = invoked settled_world"
    and fl: "files w' = files settled_world"
    by auto
  from dbg have "dbg = []" by (simp add: example_args_def)
  with pr inv fl have "w' = settled_world\<lparr>printed := [JsonLine (cached_line example_job)]\<rparr>"
    by (cases w') (simp add: settled_world_def)
  with s l t run show ?thesis by simp
qed

text \<open>
  C4 as stated fails: the log of the example job is there, but its slice file is not,
  and the slicing of lines 273 to 292 comes first. The tool is run; when it succeeds
  the cached line follows, and when it fails the only line is the slice error.
\<close>

lemma cached_world_log:
  "path_exists (files cached_world) (u ''/o/a__from-h1.out'')"
  "\<not> path_exists (files cached_world) (u ''/o/a__from-h1.smt2.alethe'')"
  "files cached_world (u ''/o'') = Some Dir"
  by (simp_all add: cached_world_def out_files_def path_exists_def u_eq_iff)

lemma example_slice_cmd:
  "slice_cmd (hole_name example_job) (alethe_path example_job) (smt2_for_slice example_job)
     (parse_hole_args example_args) (no_print_with_sharing example_args)
   = slice_cmd (u ''h1'') (u ''/b/QF_UF/a.smt2.alethe'') (u ''/b/QF_UF/a.smt2'') True True"
  by (simp add: example_job_def example_args_def)

lemma run_slice_cached_world:
  fixes T :: tool
  defines "cmd \<equiv> slice_cmd (u ''h1'') (u ''/b/QF_UF/a.smt2.alethe'') (u ''/b/QF_UF/a.smt2'')
                    True True"
  defines "f2 \<equiv> (files cached_world)
      (u ''/o/a__from-h1.smt2.alethe'' \<mapsto> File True True [],
       u ''/o/a__from-h1.smt2.alethe.stderr'' \<mapsto> File True True [])"
  defines "f3 \<equiv> (files cached_world)
      (u ''/o/a__from-h1.smt2.alethe'' \<mapsto> File True True (out_bytes (T cmd None f2)),
       u ''/o/a__from-h1.smt2.alethe.stderr'' \<mapsto> File True True (err_bytes (T cmd None f2)))"
  shows "run_slice T cached_world (hole_name example_job) (alethe_path example_job)
           (smt2_for_slice example_job) (slice_path example_job)
           (parse_hole_args example_args) (no_print_with_sharing example_args)
           (debug example_args)
         = (if out_bytes (T cmd None f2) = [] \<or> returncode (T cmd None f2) \<noteq> 0
            then (Inr (False, Some (u ''/o/a__from-h1.smt2.alethe.stderr'')),
                  \<lparr>files = f3, printed = [], invoked = [cmd]\<rparr>)
            else if err_bytes (T cmd None f2) = []
            then (Inr (True, None),
                  \<lparr>files = f3(u ''/o/a__from-h1.smt2.alethe.stderr'' := None), printed = [],
                   invoked = [cmd]\<rparr>)
            else (Inr (True, None), \<lparr>files = f3, printed = [], invoked = [cmd]\<rparr>))"
proof -
  have m: "makedirs (files cached_world) (u ''/o'') = Inr (files cached_world)"
    by (simp add: makedirs_out cached_world_log)
  have w0: "cached_world\<lparr>files := files cached_world\<rparr> = cached_world" by simp
  have d: "debug example_args = False" by (simp add: example_args_def)
  have o1: "open_write (files cached_world) (u ''/o/a__from-h1.smt2.alethe'')
      = Inr ((files cached_world)(u ''/o/a__from-h1.smt2.alethe'' \<mapsto> File True True []))"
    using cached_world_log(2) by (simp add: open_write_def path_exists_def)
  have e: "u ''/o/a__from-h1.smt2.alethe'' @ u ''.stderr'' = u ''/o/a__from-h1.smt2.alethe.stderr''"
    by (simp add: u_def)
  have o2: "open_write ((files cached_world)(u ''/o/a__from-h1.smt2.alethe'' \<mapsto> File True True []))
              (u ''/o/a__from-h1.smt2.alethe.stderr'') = Inr f2"
    unfolding f2_def
    by (simp add: open_write_def cached_world_def out_files_def u_eq_iff)
  have pc: "put_contents (put_contents f2 (u ''/o/a__from-h1.smt2.alethe'') a)
              (u ''/o/a__from-h1.smt2.alethe.stderr'') b
            = (files cached_world)
                (u ''/o/a__from-h1.smt2.alethe'' \<mapsto> File True True a,
                 u ''/o/a__from-h1.smt2.alethe.stderr'' \<mapsto> File True True b)" for a b
    by (simp add: put_contents_def f2_def u_eq_iff fun_upd_twist)
  have g1: "getsize ((files cached_world)
                (u ''/o/a__from-h1.smt2.alethe'' \<mapsto> File True True a,
                 u ''/o/a__from-h1.smt2.alethe.stderr'' \<mapsto> File True True b))
              (u ''/o/a__from-h1.smt2.alethe'') = Inr (length a)" for a b
    by (simp add: getsize_def u_eq_iff)
  have g2: "getsize ((files cached_world)
                (u ''/o/a__from-h1.smt2.alethe'' \<mapsto> File True True a,
                 u ''/o/a__from-h1.smt2.alethe.stderr'' \<mapsto> File True True b))
              (u ''/o/a__from-h1.smt2.alethe.stderr'') = Inr (length b)" for a b
    by (simp add: getsize_def)
  have pi: "printed cached_world = []" "invoked cached_world = []"
    by (simp_all add: cached_world_def)
  show ?thesis
    apply (simp only: run_slice_def example_slice_cmd example_paths m sum.case Let_def w0 d
        if_False e o1 o2 cmd_def [symmetric] pc g1 g2)
    apply (simp add: f3_def pi)
    done
qed

lemma example_tool_proc:
  "out_bytes (example_tool c t f) = ''(step''" "err_bytes (example_tool c t f) = []"
  "returncode (example_tool c t f) = 0"
  "out_bytes (failing_tool c t f) = []" "err_bytes (failing_tool c t f) = ''no''"
  "returncode (failing_tool c t f) = 1"
  by (simp_all add: example_tool_def failing_tool_def)

theorem cached_log_slice_absent:
  "path_exists (files cached_world) (out_log_path example_job)
   \<and> invoked (snd (process_job example_tool example_load example_args cached_world
                      example_job None))
       = [slice_cmd (u ''h1'') (u ''/b/QF_UF/a.smt2.alethe'') (u ''/b/QF_UF/a.smt2'') True True]
   \<and> invoked (snd (process_job failing_tool example_load example_args cached_world
                      example_job None))
       = [slice_cmd (u ''h1'') (u ''/b/QF_UF/a.smt2.alethe'') (u ''/b/QF_UF/a.smt2'') True True]
   \<and> printed (snd (process_job failing_tool example_load example_args cached_world
                      example_job None))
       = [JsonLine [(u ''status'', JStr (u ''slice_error'')),
                    (u ''alethe'', JStr (u ''a.smt2.alethe'')),
                    (u ''hole'', JStr (u ''h1'')),
                    (u ''line'', JInt 1),
                    (u ''stderr'', JStr (u ''a__from-h1.smt2.alethe.stderr''))]]"
proof -
  define cmd where "cmd = slice_cmd (u ''h1'') (u ''/b/QF_UF/a.smt2.alethe'')
                            (u ''/b/QF_UF/a.smt2'') True True"
  have l: "path_exists (files cached_world) (out_log_path example_job)"
    by (simp add: example_paths cached_world_log)
  have ns: "\<not> path_exists (files cached_world) (slice_path example_job)"
    by (simp add: example_paths cached_world_log)
  \<comment> \<open>the tool succeeds\<close>
  define fA where "fA = ((files cached_world)
      (u ''/o/a__from-h1.smt2.alethe'' \<mapsto> File True True ''(step'',
       u ''/o/a__from-h1.smt2.alethe.stderr'' \<mapsto> File True True []))
      (u ''/o/a__from-h1.smt2.alethe.stderr'' := None)"
  have rsA: "run_slice example_tool cached_world (hole_name example_job)
           (alethe_path example_job) (smt2_for_slice example_job) (slice_path example_job)
           (parse_hole_args example_args) (no_print_with_sharing example_args)
           (debug example_args)
         = (Inr (True, None), \<lparr>files = fA, printed = [], invoked = [cmd]\<rparr>)"
    by (simp add: run_slice_cached_world example_tool_proc cmd_def fA_def)
  define wA where "wA = \<lparr>files = fA, printed = [], invoked = [cmd]\<rparr>"
  have ssA: "slice_stage example_tool example_args cached_world example_job = (Next, wA)"
    by (simp add: slice_stage_def ns rsA wA_def)
  obtain r w1 where tA: "transfer_stage example_args wA example_job None = (r, w1)"
    by (cases "transfer_stage example_args wA example_job None") auto
  from transfer_stage_world [OF tA] have iA: "invoked w1 = [cmd]" by (simp add: wA_def)
  have fw1: "path_exists (files w1) (out_log_path example_job)"
  proof -
    have sf: "smt2_for_slice example_job = u ''/b/QF_UF/a.smt2''"
      by (simp add: example_job_def)
    have "\<not> isfile fA (u ''/o/a.smt2'') \<and> \<not> isfile fA (u ''/b/QF_UF/a.smt2'')"
      by (simp add: isfile_def fA_def u_eq_iff cached_world_def out_files_def)
    then have "\<not> isfile (files wA) (smt2_target example_job)
          \<and> \<not> isfile (files wA) (smt2_for_slice example_job)"
      by (simp add: example_paths sf wA_def)
    then have "w1 = wA" using tA
      by (simp add: transfer_stage_def Let_def usable_def)
    moreover have "path_exists fA (u ''/o/a__from-h1.out'')"
      by (simp add: path_exists_def fA_def u_eq_iff cached_world_def out_files_def)
    ultimately show ?thesis by (simp add: example_paths wA_def)
  qed
  have a: "invoked (snd (process_job example_tool example_load example_args cached_world
                      example_job None)) = [cmd]"
    using tA iA
    by (cases r)
      (auto simp: process_job_def ssA elaborate_stage_cached [OF fw1] split: prod.splits)
  \<comment> \<open>the tool fails\<close>
  define fB where "fB = (files cached_world)
      (u ''/o/a__from-h1.smt2.alethe'' \<mapsto> File True True [],
       u ''/o/a__from-h1.smt2.alethe.stderr'' \<mapsto> File True True ''no'')"
  have rsB: "run_slice failing_tool cached_world (hole_name example_job)
           (alethe_path example_job) (smt2_for_slice example_job) (slice_path example_job)
           (parse_hole_args example_args) (no_print_with_sharing example_args)
           (debug example_args)
         = (Inr (False, Some (u ''/o/a__from-h1.smt2.alethe.stderr'')),
            \<lparr>files = fB, printed = [], invoked = [cmd]\<rparr>)"
    by (simp add: run_slice_cached_world example_tool_proc cmd_def fB_def)
  have rel: "rel_root example_job (alethe_path example_job) = u ''a.smt2.alethe''"
    "rel_out example_job (u ''/o/a__from-h1.smt2.alethe.stderr'')
       = u ''a__from-h1.smt2.alethe.stderr''"
    "hole_name example_job = u ''h1''" "int (line_no example_job) = 1"
    "u ''/o/a__from-h1.smt2.alethe.stderr'' \<noteq> []"
    by (simp_all add: example_job_def u_def)
  have ssB: "slice_stage failing_tool example_args cached_world example_job
      = (Continue, \<lparr>files = fB,
            printed = [JsonLine [(u ''status'', JStr (u ''slice_error'')),
                    (u ''alethe'', JStr (u ''a.smt2.alethe'')),
                    (u ''hole'', JStr (u ''h1'')),
                    (u ''line'', JInt 1),
                    (u ''stderr'', JStr (u ''a__from-h1.smt2.alethe.stderr''))]],
            invoked = [cmd]\<rparr>)"
    by (simp only: slice_stage_def ns if_False rsB prod.case sum.case)
      (simp add: rel print_json_def val_error_def int_repr_def digits.simps)
  have b: "process_job failing_tool example_load example_args cached_world example_job None
      = (Inr None, \<lparr>files = fB,
            printed = [JsonLine [(u ''status'', JStr (u ''slice_error'')),
                    (u ''alethe'', JStr (u ''a.smt2.alethe'')),
                    (u ''hole'', JStr (u ''h1'')),
                    (u ''line'', JInt 1),
                    (u ''stderr'', JStr (u ''a__from-h1.smt2.alethe.stderr''))]],
            invoked = [cmd]\<rparr>)"
    by (simp add: process_job_def ssB)
  from l a b show ?thesis by (simp add: cmd_def)
qed
subsection \<open>The reader on the text of a ledger\<close>

subsubsection \<open>Strings\<close>

lemma unhex_hex_digit: "d < 16 \<Longrightarrow> unhex (hex_digit d) = Some d"
  by (auto simp: unhex_def hex_digit_def)

lemma scanstring_escape_char:
  "scanstring (escape_char c @ t)
     = (case scanstring t of None \<Rightarrow> None | Some (s, r) \<Rightarrow> Some (c # s, r))"
proof -
  consider (q) "c = 34" | (b) "c = 92" | (n) "c = 10" | (r) "c = 13" | (t) "c = 9"
    | (bs) "c = 8" | (f) "c = 12"
    | (ctl) "c < 32" "c \<noteq> 10" "c \<noteq> 13" "c \<noteq> 9" "c \<noteq> 8" "c \<noteq> 12"
    | (plain) "32 \<le> c" "c \<noteq> 34" "c \<noteq> 92"
    by linarith
  then show ?thesis
  proof cases
    case ctl
    have d: "c div 16 < 16" "c mod 16 < 16" using ctl(1) by auto
    have e: "escape_char c = [92, 117, 48, 48, hex_digit (c div 16), hex_digit (c mod 16)]"
      using ctl by (simp add: escape_char_def)
    have h: "hex4 [48, 48, hex_digit (c div 16), hex_digit (c mod 16)] = Some c"
      using d by (simp add: hex4_def unhex_hex_digit) (simp add: unhex_def)
    show ?thesis
      using ctl(1) by (simp add: e h split: option.splits)
  qed (simp_all add: escape_char_def unescape_def split: option.splits)
qed

lemma scanstring_escaped:
  "scanstring (concat (map escape_char s) @ 34 # rest) = Some (s, rest)"
  by (induction s) (simp_all add: scanstring_escape_char del: scanstring.simps, simp)

lemma scanstring_basestring:
  "scanstring (tl (encode_basestring s) @ rest) = Some (s, rest)"
  by (simp add: encode_basestring_def scanstring_escaped del: scanstring.simps)


subsubsection \<open>Numbers\<close>

lemma digits_nonempty: "digits n \<noteq> []"
  by (induction n rule: digits.induct) (subst digits.simps, simp)

lemma digits_all: "list_all is_digit (digits n)"
proof (induction n rule: digits.induct)
  case (1 n)
  show ?case
  proof (cases "n < 10")
    case True
    then show ?thesis by (subst digits.simps) (simp add: is_digit_def)
  next
    case False
    have "n mod 10 < 10" by simp
    then have "is_digit (48 + n mod 10)" unfolding is_digit_def by linarith
    with False 1 show ?thesis by (subst digits.simps) simp
  qed
qed

lemma digits_value_append:
  "digits_value (xs @ [c]) = 10 * digits_value xs + (c - 48)"
  by (simp add: digits_value_def)

lemma digits_value_digits: "digits_value (digits n) = n"
proof (induction n rule: digits.induct)
  case (1 n)
  show ?case
  proof (cases "n < 10")
    case True
    then show ?thesis by (subst digits.simps) (simp add: digits_value_def)
  next
    case False
    with 1 show ?thesis by (subst digits.simps) (simp add: digits_value_append)
  qed
qed

lemma hd_digits: "hd (digits n) = 48 \<Longrightarrow> n = 0"
proof (induction n rule: digits.induct)
  case (1 n)
  show ?case
  proof (cases "n < 10")
    case True
    with 1(2) show ?thesis by (subst (asm) digits.simps) simp
  next
    case False
    then have "hd (digits n) = hd (digits (n div 10))"
      by (subst digits.simps) (simp add: digits_nonempty)
    with 1 False have "n div 10 = 0" by simp
    with False show ?thesis by simp
  qed
qed

lemma length_digits_0: "n = 0 \<Longrightarrow> length (digits n) = 1"
  by (subst digits.simps) simp

lemma takeWhile_all: "list_all P xs \<Longrightarrow> (rest = [] \<or> \<not> P (hd rest))
   \<Longrightarrow> takeWhile P (xs @ rest) = xs \<and> dropWhile P (xs @ rest) = rest"
proof (induction xs)
  case Nil
  then show ?case by (cases rest) auto
next
  case (Cons x xs)
  then show ?case by simp
qed

lemma digits_not_minus: "hd (digits n) \<noteq> 45"
proof -
  have "is_digit (hd (digits n))"
    using digits_all [of n] digits_nonempty [of n] by (cases "digits n") auto
  then show ?thesis by (auto simp: is_digit_def)
qed

lemma scan_int_digits:
  assumes "rest = [] \<or> (\<not> is_digit (hd rest) \<and> hd rest \<noteq> 46 \<and> hd rest \<noteq> 101 \<and> hd rest \<noteq> 69)"
    and short: "length (digits (nat \<bar>i\<bar>)) \<le> 4300"
  shows "scan_int (py_str i @ rest) = Some (i, rest)"
proof -
  define n where "n = nat \<bar>i\<bar>"
  have sh: "\<not> 4300 < length (digits n)" using short by (simp add: n_def)
  have tw: "takeWhile is_digit (digits n @ rest) = digits n"
    and dw: "dropWhile is_digit (digits n @ rest) = rest"
    using takeWhile_all [OF digits_all, of rest n] assms by auto
  have lz: "\<not> (hd (digits n) = 48 \<and> 1 < length (digits n))"
    using hd_digits [of n] length_digits_0 [of n] by auto
  have rs: "\<not> (rest \<noteq> [] \<and> (hd rest = 46 \<or> hd rest = 101 \<or> hd rest = 69))"
    using assms by auto
  show ?thesis
  proof (cases "i < 0")
    case True
    then have p: "py_str i = 45 # digits n" by (simp add: py_str_def n_def)
    have "int n = - i" using True by (simp add: n_def)
    then show ?thesis
      using tw dw lz rs sh digits_nonempty [of n]
      by (simp add: scan_int_def p Let_def digits_value_digits)
  next
    case False
    then have p: "py_str i = digits n" by (simp add: py_str_def n_def)
    have i: "int n = i" using False by (simp add: n_def)
    have "\<not> (digits n @ rest \<noteq> [] \<and> hd (digits n @ rest) = 45)"
      using digits_not_minus [of n] digits_nonempty [of n] by simp
    then show ?thesis
      using tw dw lz rs sh digits_nonempty [of n] i
      by (simp add: scan_int_def p Let_def digits_value_digits)
  qed
qed

lemma hd_py_str: "py_str i \<noteq> [] \<and> (is_digit (hd (py_str i)) \<or> hd (py_str i) = 45)"
proof -
  have "is_digit (hd (digits n))" for n
    using digits_all [of n] digits_nonempty [of n] by (cases "digits n") auto
  then show ?thesis by (simp add: py_str_def digits_nonempty)
qed

lemma scan_value_dumps:
  assumes "rest \<noteq> []" and "hd rest = 10 \<or> hd rest = 44" and ve: "val_error v = None"
  shows "scan_value (val_text v @ rest) = Some (v, rest)"
proof (cases v)
  case JNull
  then show ?thesis by (simp add: scan_value_def val_text_def u_def)
next
  case (JBool b)
  then show ?thesis by (simp add: scan_value_def val_text_def u_def)
next
  case (JInt i)
  obtain c cs where cs: "py_str i = c # cs" and c: "is_digit c \<or> c = 45"
    using hd_py_str [of i] by (cases "py_str i") auto
  have r: "rest = [] \<or> (\<not> is_digit (hd rest) \<and> hd rest \<noteq> 46 \<and> hd rest \<noteq> 101 \<and> hd rest \<noteq> 69)"
    using assms by (auto simp: is_digit_def)
  have "length (digits (nat \<bar>i\<bar>)) \<le> 4300"
    using ve JInt by (simp add: val_error_def int_repr_def split: if_splits)
  from scan_int_digits [OF r this]
  have "scan_int (c # cs @ rest) = Some (i, rest)" by (simp add: cs)
  moreover have "c \<noteq> 34" "c \<noteq> 110" "c \<noteq> 116" "c \<noteq> 102"
    using c by (auto simp: is_digit_def)
  ultimately show ?thesis
    using JInt by (simp add: scan_value_def val_text_def cs u_def)
next
  case (JStr s)
  have "scanstring (concat (map escape_char s) @ 34 # rest) = Some (s, rest)"
    by (rule scanstring_escaped)
  then show ?thesis
    using JStr by (simp add: scan_value_def val_text_def encode_basestring_def)
qed


subsubsection \<open>Objects\<close>

lemma skip_ws_indent: "skip_ws (newline_indent l @ x) = skip_ws x"
  by (simp add: skip_ws_def newline_indent_def json_ws_def dropWhile_append)

lemma skip_ws_keep: "\<not> json_ws c \<Longrightarrow> skip_ws (c # x) = c # x"
  by (simp add: skip_ws_def)

lemma skip_ws_nl: "skip_ws (10 # x) = skip_ws x"
  by (simp add: skip_ws_def json_ws_def)

lemma skip_ws_space: "skip_ws (32 # x) = skip_ws x"
  by (simp add: skip_ws_def json_ws_def)

lemma val_text_hd: "\<exists>c cs. val_text v = c # cs \<and> \<not> json_ws c"
proof (cases v)
  case (JInt i)
  obtain c cs where "py_str i = c # cs" "is_digit c \<or> c = 45"
    using hd_py_str [of i] by (cases "py_str i") auto
  then show ?thesis using JInt by (auto simp: val_text_def json_ws_def is_digit_def)
qed (auto simp: val_text_def u_def json_ws_def encode_basestring_def)

lemma item_text_hd: "item_text kv = 34 # tl (item_text kv)"
  by (simp add: item_text_def encode_basestring_def)

lemma join_items_hd:
  "join sep (map item_text (kv # ms)) = 34 # tl (join sep (map item_text (kv # ms)))"
proof (cases ms)
  case Nil
  then show ?thesis using item_text_hd [of kv] by simp
next
  case (Cons a list)
  then show ?thesis by (simp add: item_text_def encode_basestring_def)
qed

lemma tl_join_items:
  "tl (join sep (map item_text (kv # m # ms)))
     = tl (item_text kv) @ sep @ join sep (map item_text (m # ms))"
  by (simp add: item_text_def encode_basestring_def)

lemma scan_item:
  assumes "rest \<noteq> []" and "hd rest = 10 \<or> hd rest = 44" and ve: "val_error v = None"
  shows "scanstring (tl (item_text (k, v)) @ rest) = Some (k, 58 # 32 # val_text v @ rest)
       \<and> scan_value (skip_ws (32 # val_text v @ rest)) = Some (v, rest)"
proof -
  obtain c cs where c: "val_text v = c # cs" "\<not> json_ws c"
    using val_text_hd by blast
  have "skip_ws (32 # val_text v @ rest) = val_text v @ rest"
    using c by (simp add: skip_ws_space skip_ws_keep)
  moreover have "scanstring (concat (map escape_char k) @ 34 # 58 # 32 # val_text v @ rest)
      = Some (k, 58 # 32 # val_text v @ rest)"
    by (rule scanstring_escaped)
  ultimately show ?thesis
    using scan_value_dumps [OF assms]
    by (simp add: item_text_def encode_basestring_def u_def)
qed

lemma json_error_Cons:
  "json_error (kv # ms) = None \<longleftrightarrow> val_error (snd kv) = None \<and> json_error ms = None"
  by (cases "val_error (snd kv)") simp_all

lemma scan_members_items:
  "ms \<noteq> [] \<Longrightarrow> length ms \<le> n \<Longrightarrow> json_error ms = None \<Longrightarrow>
   scan_members n (tl (join (44 # newline_indent l) (map item_text ms))
                   @ newline_indent l' @ 125 # rest) = Some (ms, rest)"
proof (induction ms arbitrary: n)
  case Nil
  then show ?case by simp
next
  case (Cons kv ms)
  obtain k v where kv: "kv = (k, v)" by (cases kv)
  from Cons.prems obtain n' where n: "n = Suc n'" and n': "length ms \<le> n'"
    by (cases n) auto
  from Cons.prems(3) have ve: "val_error v = None" and je: "json_error ms = None"
    using json_error_Cons [of kv ms] by (simp_all add: kv)
  show ?case
  proof (cases ms)
    case Nil
    define r where "r = newline_indent l' @ 125 # rest"
    have r: "r \<noteq> []" "hd r = 10 \<or> hd r = 44" by (simp_all add: r_def newline_indent_def)
    have sk: "skip_ws r = 125 # rest"
      by (simp add: r_def skip_ws_indent skip_ws_keep json_ws_def)
    show ?thesis
      using scan_item [OF r ve, of k] sk
      by (simp add: Nil kv n r_def [symmetric] skip_ws_keep json_ws_def expect_def
          del: scanstring.simps)
  next
    case (Cons m ms')
    define tail where "tail = join (44 # newline_indent l) (map item_text (m # ms'))
                               @ newline_indent l' @ 125 # rest"
    define r where "r = 44 # newline_indent l @ tail"
    have r: "r \<noteq> []" "hd r = 10 \<or> hd r = 44" by (simp_all add: r_def)
    have t34: "tail = 34 # tl (join (44 # newline_indent l) (map item_text (m # ms')))
                        @ newline_indent l' @ 125 # rest"
      unfolding tail_def using join_items_hd [of "44 # newline_indent l" m ms']
      by (metis append_Cons)
    have sk: "skip_ws r = r" by (simp add: r_def skip_ws_keep json_ws_def)
    have "skip_ws tail = tail"
    proof -
      from t34 obtain x where "tail = 34 # x" by blast
      then show ?thesis by (simp add: skip_ws_keep json_ws_def)
    qed
    then have sk2: "skip_ws (newline_indent l @ tail) = tail"
      by (simp add: skip_ws_indent)
    have ih: "scan_members n' (tl (join (44 # newline_indent l) (map item_text (m # ms')))
                   @ newline_indent l' @ 125 # rest) = Some (m # ms', rest)"
      using Cons.IH [of n'] n' Cons je by simp
    have whole: "tl (join (44 # newline_indent l) (map item_text (kv # ms)))
                   @ newline_indent l' @ 125 # rest = tl (item_text (k, v)) @ r"
      using tl_join_items [of "44 # newline_indent l" "(k, v)" m ms']
      by (simp add: Cons kv r_def tail_def del: join.simps)
    have e34: "expect 34 tail = Some (tl (join (44 # newline_indent l) (map item_text (m # ms')))
                   @ newline_indent l' @ 125 # rest)"
      by (subst t34) (simp add: expect_def)
    have step: "scan_members (Suc n') (tl (item_text (k, v)) @ r)
        = (case scan_members n' (tl (join (44 # newline_indent l) (map item_text (m # ms')))
                   @ newline_indent l' @ 125 # rest) of
             None \<Rightarrow> None
           | Some (ms, rest) \<Rightarrow> Some ((k, v) # ms, rest))"
      using scan_item [OF r ve, of k] sk
      by (simp add: skip_ws_keep json_ws_def expect_def del: scanstring.simps)
         (simp add: r_def sk2 e34)
    show ?thesis
      unfolding whole n step ih by (simp add: Cons kv)
  qed
qed

lemma update_fresh: "k \<notin> fst ` set al \<Longrightarrow> AList.update k v al = al @ [(k, v)]"
  by (induction al) auto

lemma py_dict_acc:
  "distinct (map fst (acc @ ms)) \<Longrightarrow>
     foldl (\<lambda>d kv. AList.update (fst kv) (snd kv) d) acc ms = acc @ ms"
proof (induction ms arbitrary: acc)
  case Nil
  then show ?case by simp
next
  case (Cons kv ms)
  have "fst kv \<notin> fst ` set acc" using Cons.prems by auto
  then have "AList.update (fst kv) (snd kv) acc = acc @ [kv]"
    by (simp add: update_fresh)
  with Cons show ?case by simp
qed

lemma py_dict_distinct: "distinct (map fst ms) \<Longrightarrow> py_dict ms = ms"
  using py_dict_acc [of "[]" ms] by (simp add: py_dict_def)

lemma obj_text_hd: "obj_text l e = 123 # tl (obj_text l e)"
  by (simp add: obj_text_def u_def)

lemma scan_object_dumps:
  assumes "distinct (map fst e)" and "length e \<le> n" and "json_error e = None"
  shows "scan_object n (tl (obj_text l e) @ rest) = Some (e, rest)"
proof (cases e)
  case Nil
  then show ?thesis
    by (simp add: scan_object_def obj_text_def u_def skip_ws_keep json_ws_def)
next
  case (Cons kv ms)
  define items where "items = join (44 # newline_indent (Suc l)) (map item_text e)"
  have i34: "items = 34 # tl items"
    unfolding items_def Cons by (rule join_items_hd)
  have t: "tl (obj_text l e) @ rest
     = newline_indent (Suc l) @ items @ newline_indent l @ 125 # rest"
    using Cons by (simp add: obj_text_def items_def del: join.simps)
  have sk: "skip_ws (newline_indent (Suc l) @ items @ newline_indent l @ 125 # rest)
     = 34 # tl items @ newline_indent l @ 125 # rest"
    by (subst i34) (simp add: skip_ws_indent skip_ws_keep json_ws_def)
  have m: "scan_members n (tl items @ newline_indent l @ 125 # rest) = Some (e, rest)"
    unfolding items_def using scan_members_items [of e n "Suc l" l rest] assms Cons by simp
  show ?thesis
    unfolding t by (simp add: scan_object_def sk m py_dict_distinct assms)
qed


subsubsection \<open>The array\<close>

lemma length_join_items: "length ms \<le> length (join sep (map item_text ms))"
proof (induction ms rule: induct_list012)
  case 1
  then show ?case by simp
next
  case (2 x)
  then show ?case by (simp add: item_text_def encode_basestring_def)
next
  case (3 x y zs)
  have "1 \<le> length (item_text x)" by (simp add: item_text_def encode_basestring_def)
  with 3 show ?case by simp
qed

lemma length_obj_text: "length e \<le> length (obj_text l e)"
  using length_join_items [of e "44 # newline_indent (Suc l)"]
  by (simp add: obj_text_def u_def)

lemma ledger_rest_Cons:
  "ledger_rest (x # xs) = 44 # 10 # obj_text 0 x @ 10 # ledger_rest xs"
  by (simp add: ledger_rest_def u_def)

lemma length_ledger_rest: "length es \<le> length (ledger_rest es)"
proof (induction es)
  case Nil
  then show ?case by simp
next
  case (Cons a es)
  then show ?case by (simp add: ledger_rest_Cons)
qed

lemma scan_elements_ledger:
  "\<forall>x\<in>set (e # es). distinct (map fst x) \<and> json_error x = None \<Longrightarrow> length es < n \<Longrightarrow>
   scan_elements n (obj_text l e @ 10 # ledger_rest es @ 93 # tr) = Some (e # es, tr)"
proof (induction es arbitrary: e l n)
  case Nil
  then obtain n' where n: "n = Suc n'" by (cases n) auto
  define s where "s = obj_text l e @ 10 # ledger_rest [] @ 93 # tr"
  have s: "s = 123 # tl (obj_text l e) @ 10 # 93 # tr"
    unfolding s_def using obj_text_hd [of l e] by (simp add: ledger_rest_def)
  have ex: "expect 123 s = Some (tl (obj_text l e) @ 10 # 93 # tr)"
    by (subst s) (simp add: expect_def)
  have len: "length e \<le> length s"
    unfolding s_def using length_obj_text [of e l] by simp
  have ob: "scan_object (length s) (tl (obj_text l e) @ 10 # 93 # tr) = Some (e, 10 # 93 # tr)"
    using scan_object_dumps [OF _ len, of l "10 # 93 # tr"] Nil.prems by simp
  have "scan_elements (Suc n') s = Some ([e], tr)"
    apply (simp only: scan_elements.simps ex option.case ob prod.case)
    apply (simp add: skip_ws_nl skip_ws_keep json_ws_def)
    done
  then show ?case by (simp only: s_def n)
next
  case (Cons x xs)
  then obtain n' where n: "n = Suc n'" and n': "length xs < n'" by (cases n) auto
  define nxt where "nxt = obj_text 0 x @ 10 # ledger_rest xs @ 93 # tr"
  define s where "s = obj_text l e @ 10 # ledger_rest (x # xs) @ 93 # tr"
  have s: "s = 123 # tl (obj_text l e) @ 10 # 44 # 10 # nxt"
    unfolding s_def nxt_def using obj_text_hd [of l e]
    by (simp add: ledger_rest_Cons)
  have ex: "expect 123 s = Some (tl (obj_text l e) @ 10 # 44 # 10 # nxt)"
    by (subst s) (simp add: expect_def)
  have len: "length e \<le> length s"
    unfolding s_def using length_obj_text [of e l] by simp
  have ob: "scan_object (length s) (tl (obj_text l e) @ 10 # 44 # 10 # nxt)
      = Some (e, 10 # 44 # 10 # nxt)"
    using scan_object_dumps [OF _ len, of l "10 # 44 # 10 # nxt"] Cons.prems by simp
  have "\<exists>y. nxt = 123 # y"
    unfolding nxt_def using obj_text_hd [of 0 x] by (metis append_Cons)
  then have sk: "skip_ws nxt = nxt"
    by (auto simp: skip_ws_keep json_ws_def)
  have ih: "scan_elements n' nxt = Some (x # xs, tr)"
    unfolding nxt_def using Cons.IH [of x n' 0] Cons.prems n' by simp
  have "scan_elements (Suc n') s = Some (e # x # xs, tr)"
    apply (simp only: scan_elements.simps ex option.case ob prod.case)
    apply (simp add: skip_ws_nl skip_ws_keep json_ws_def sk ih)
    done
  then show ?case by (simp only: s_def n)
qed

lemma json_loads_ledger:
  assumes "\<forall>x\<in>set (e # es). distinct (map fst x) \<and> json_error x = None"
  shows "json_loads (ledger_text e es) = Some (e # es)"
proof -
  define tr where "tr = (if es = [] then u ''\<newline>'' else [])"
  define body where "body = obj_text 1 e @ 10 # ledger_rest es @ 93 # tr"
  define full where "full = ledger_text e es"
  have t: "full = 91 # newline_indent 1 @ body"
    by (simp add: full_def ledger_text_def ledger_body_def body_def tr_def u_def)
  obtain y where b123: "body = 123 # y"
    unfolding body_def using obj_text_hd [of 1 e] by (metis append_Cons)
  have e91: "expect 91 (skip_ws full) = Some (newline_indent 1 @ body)"
    by (subst t) (simp add: skip_ws_keep json_ws_def expect_def)
  have sk: "skip_ws (newline_indent 1 @ body) = 123 # y"
    by (simp add: skip_ws_indent b123 skip_ws_keep json_ws_def)
  have "length es \<le> length (ledger_rest es)" by (rule length_ledger_rest)
  then have fuel: "length es < length full"
    by (simp add: t body_def)
  have el: "scan_elements (length full) (123 # y) = Some (e # es, tr)"
    unfolding b123 [symmetric] body_def by (rule scan_elements_ledger [OF assms fuel])
  have trw: "skip_ws tr = []"
    by (simp add: tr_def skip_ws_def json_ws_def u_def)
  have "json_loads full = Some (e # es)"
    apply (simp only: json_loads_def e91 option.case sk list.case)
    apply (simp add: el trw)
    done
  then show ?thesis by (simp only: full_def)
qed

subsection \<open>ASCII text\<close>

lemma ascii_append [simp]: "ascii (xs @ ys) = (ascii xs \<and> ascii ys)"
  by (simp add: ascii_def)

lemma ascii_Cons [simp]: "ascii (c # cs) = (c < 128 \<and> ascii cs)"
  by (simp add: ascii_def)

lemma ascii_Nil [simp]: "ascii []"
  by (simp add: ascii_def)

lemma ascii_u [simp]: "ascii (u s) = list_all (\<lambda>c. (of_char c :: nat) < 128) s"
  by (simp add: ascii_def u_def list_all_iff)

lemma ascii_replicate [simp]: "ascii (replicate n c) = (n = 0 \<or> c < 128)"
  by (auto simp: ascii_def list_all_iff)

lemma utf8_encode_ascii: "ascii s \<Longrightarrow> utf8_encode s = Inr (map char_of s)"
  by (induction s) (simp_all add: utf8_encode_cp_def)

lemma of_char_char_of_ascii: "ascii s \<Longrightarrow> map of_char (map char_of s) = s"
  by (induction s) simp_all

lemma utf8_decode_ignore_chars:
  assumes "ascii s"
  shows "utf8_decode_ignore (map char_of s) = s"
proof -
  have "\<forall>b\<in>set (map char_of s). (of_char b :: nat) < 128"
    using assms by (auto simp: ascii_def list_all_iff)
  then have "utf8_decode_ignore (map char_of s) = map of_char (map char_of s)"
    by (rule utf8_decode_ignore_ascii)
  with assms show ?thesis by (simp only: of_char_char_of_ascii)
qed

lemma utf8_decode_strict_ascii:
  "\<forall>b\<in>set bs. (of_char b :: nat) < 128 \<Longrightarrow> utf8_decode_strict bs = Inr (map of_char bs)"
  by (induction bs) (auto simp: utf8_head_def)

lemma utf8_decode_strict_chars:
  assumes "ascii s"
  shows "utf8_decode_strict (map char_of s) = Inr s"
proof -
  have "\<forall>b\<in>set (map char_of s). (of_char b :: nat) < 128"
    using assms by (auto simp: ascii_def list_all_iff)
  then have "utf8_decode_strict (map char_of s) = Inr (map of_char (map char_of s))"
    by (rule utf8_decode_strict_ascii)
  with assms show ?thesis by (simp only: of_char_char_of_ascii)
qed

lemma ascii_drop: "ascii s \<Longrightarrow> ascii (drop k s)"
  by (auto simp: ascii_def list_all_iff dest: in_set_dropD)

lemma ascii_digits: "ascii (digits n)"
proof (induction n rule: digits.induct)
  case (1 n)
  show ?case
  proof (cases "n < 10")
    case True
    then show ?thesis by (subst digits.simps) simp
  next
    case False
    have "n mod 10 < 10" by simp
    then have "48 + n mod 10 < 128" by linarith
    with False 1 show ?thesis by (subst digits.simps) simp
  qed
qed

lemma ascii_py_str: "ascii (py_str i)"
  by (simp add: py_str_def ascii_digits)

lemma ascii_escape_char: "c < 128 \<Longrightarrow> ascii (escape_char c)"
proof -
  have "hex_digit (c div 16) < 128" if "c < 32"
    using that by (simp add: hex_digit_def)
  moreover have "c mod 16 < 16" by simp
  then have "hex_digit (c mod 16) < 128" unfolding hex_digit_def by auto
  ultimately show "c < 128 \<Longrightarrow> ascii (escape_char c)"
    by (simp add: escape_char_def)
qed

lemma ascii_concat_escape: "ascii s \<Longrightarrow> ascii (concat (map escape_char s))"
  by (induction s) (simp_all add: ascii_escape_char)

lemma ascii_basestring: "ascii s \<Longrightarrow> ascii (encode_basestring s)"
  by (simp add: encode_basestring_def ascii_concat_escape)

lemma ascii_val_text: "(case v of JStr s \<Rightarrow> ascii s | _ \<Rightarrow> True) \<Longrightarrow> ascii (val_text v)"
  by (cases v) (simp_all add: val_text_def ascii_py_str ascii_basestring)

lemma ascii_newline_indent [simp]: "ascii (newline_indent l)"
  by (simp add: newline_indent_def)

lemma ascii_join: "ascii sep \<Longrightarrow> list_all ascii xs \<Longrightarrow> ascii (join sep xs)"
  by (induction sep xs rule: join.induct) simp_all

lemma ascii_obj_text: "ascii_obj e \<Longrightarrow> ascii (obj_text l e)"
proof -
  assume a: "ascii_obj e"
  have "list_all ascii (map item_text e)"
    using a by (auto simp: ascii_obj_def list_all_iff item_text_def ascii_basestring
        ascii_val_text)
  then show ?thesis
    by (simp add: obj_text_def ascii_join)
qed

lemma ascii_ledger_rest: "list_all ascii_obj es \<Longrightarrow> ascii (ledger_rest es)"
  by (induction es) (simp_all add: ledger_rest_Cons ascii_obj_text, simp add: ledger_rest_def)

lemma ascii_ledger_body: "ascii_obj e \<Longrightarrow> list_all ascii_obj es \<Longrightarrow> ascii (ledger_body e es)"
  by (simp add: ledger_body_def ascii_obj_text ascii_ledger_rest)

lemma ascii_ledger_text: "ascii_obj e \<Longrightarrow> list_all ascii_obj es \<Longrightarrow> ascii (ledger_text e es)"
  by (simp add: ledger_text_def ascii_ledger_body)

subsection \<open>What json.dump writes to a text file\<close>

lemma write_chunks_ascii:
  "list_all ascii_chunk cs \<Longrightarrow> write_chunks cs = (None, map char_of (chunks_text cs))"
proof (induction cs)
  case Nil
  then show ?case by (simp add: chunks_text_def)
next
  case (Cons c cs)
  then obtain s where c: "c = Inr s" and a: "ascii s"
    by (cases c) (auto simp: ascii_chunk_def)
  have "write_chunks cs = (None, map char_of (chunks_text cs))"
    using Cons by simp
  then show ?case
    by (simp add: c utf8_encode_ascii [OF a] chunks_text_def)
qed

lemma chunks_text_append: "chunks_text (xs @ ys) = chunks_text xs @ chunks_text ys"
  by (simp add: chunks_text_def)

lemma chunks_text_Cons: "chunks_text (Inr s # cs) = s @ chunks_text cs"
  by (simp add: chunks_text_def)

lemma chunks_text_Nil: "chunks_text [] = []"
  by (simp add: chunks_text_def)

lemma val_chunk_text: "val_error v = None \<Longrightarrow> val_chunk v = Inr (val_text v)"
  by (simp add: val_chunk_def)

lemma join_Cons: "join sep (x # xs) = x @ concat (map (\<lambda>y. sep @ y) xs)"
  by (induction xs arbitrary: x) simp_all

lemma item_chunks_rest:
  "json_error e = None \<Longrightarrow>
     chunks_text (item_chunks lvl False e)
       = concat (map (\<lambda>y. (44 # newline_indent lvl) @ y) (map item_text e))"
proof (induction e)
  case Nil
  then show ?case by (simp add: chunks_text_Nil)
next
  case (Cons kv e)
  from Cons.prems have ve: "val_error (snd kv) = None" and je: "json_error e = None"
    using json_error_Cons [of kv e] by simp_all
  show ?case
    using Cons.IH [OF je]
    by (simp add: chunks_text_append chunks_text_Cons chunks_text_Nil val_chunk_text [OF ve]
        item_text_def)
qed

lemma item_chunks_first:
  assumes "json_error e = None" and "e \<noteq> []"
  shows "chunks_text (item_chunks lvl True e)
           = join (44 # newline_indent lvl) (map item_text e)"
proof -
  from assms(2) obtain kv ms where e: "e = kv # ms" by (cases e) auto
  from assms(1) have ve: "val_error (snd kv) = None" and je: "json_error ms = None"
    using json_error_Cons [of kv ms] by (simp_all add: e)
  show ?thesis
    using item_chunks_rest [OF je, of lvl]
    by (simp add: e chunks_text_append chunks_text_Cons chunks_text_Nil val_chunk_text [OF ve]
        item_text_def join_Cons del: join.simps)
qed

lemma obj_chunks_text:
  assumes "json_error e = None"
  shows "chunks_text (obj_chunks lvl e) = obj_text lvl e"
proof (cases "e = []")
  case True
  then show ?thesis by (simp add: obj_chunks_def obj_text_def chunks_text_Cons chunks_text_Nil)
next
  case False
  then show ?thesis
    using item_chunks_first [OF assms False, of "Suc lvl"]
    by (simp add: obj_chunks_def obj_text_def chunks_text_Cons chunks_text_Nil
        chunks_text_append del: join.simps)
qed

lemma list_chunks_text:
  assumes "json_error e = None"
  shows "chunks_text (list_chunks [e] @ [Inr (u ''\<newline>'')]) = list_text [e] @ u ''\<newline>''"
  using obj_chunks_text [OF assms, of 1]
  by (simp add: list_chunks_def list_text_def chunks_text_Cons chunks_text_Nil
      chunks_text_append)

lemma ascii_item_chunks:
  "ascii_obj e \<Longrightarrow> json_error e = None \<Longrightarrow> list_all ascii_chunk (item_chunks lvl fst_flag e)"
proof (induction e arbitrary: fst_flag)
  case Nil
  then show ?case by simp
next
  case (Cons kv e)
  from Cons.prems(2) have ve: "val_error (snd kv) = None" and je: "json_error e = None"
    using json_error_Cons [of kv e] by simp_all
  from Cons.prems(1) have ak: "ascii (fst kv)"
    and av: "case snd kv of JStr s \<Rightarrow> ascii s | _ \<Rightarrow> True" and ae: "ascii_obj e"
    by (simp_all add: ascii_obj_def)
  have "ascii (val_text (snd kv))" using av by (rule ascii_val_text)
  then show ?case
    using Cons.IH [OF ae je] ak
    by (simp add: ascii_chunk_def val_chunk_text [OF ve] ascii_basestring)
qed

lemma ascii_list_chunks:
  assumes "ascii_obj e" and "json_error e = None"
  shows "list_all ascii_chunk (list_chunks [e] @ [Inr (u ''\<newline>'')])"
  using ascii_item_chunks [OF assms, of "Suc (Suc 0)" True]
  by (simp add: list_chunks_def obj_chunks_def ascii_chunk_def)

lemma json_dumps_text: "json_error e = None \<Longrightarrow> json_dumps lvl e = Inr (obj_text lvl e)"
  by (simp add: json_dumps_def)

lemma length_digits_ge: "10 ^ k \<le> n \<Longrightarrow> k < length (digits n)"
proof (induction k arbitrary: n)
  case 0
  then show ?case using digits_nonempty [of n] by (cases "digits n") auto
next
  case (Suc k)
  have "(10::nat) * 1 \<le> 10 * 10 ^ k" by (rule mult_le_mono2) simp
  moreover have "(10::nat) * 10 ^ k \<le> n" using Suc.prems by simp
  ultimately have ge: "\<not> n < 10" by linarith
  have "(10 * 10 ^ k) div 10 \<le> n div 10"
    using Suc.prems by (intro div_le_mono) simp
  then have "10 ^ k \<le> n div 10" by simp
  from Suc.IH [OF this] show ?case
    using ge by (subst digits.simps) simp
qed

lemma long_int_error: "4300 \<le> k \<Longrightarrow> val_error (JInt (10 ^ k)) = Some ValueError"
proof -
  assume k: "4300 \<le> k"
  have e: "nat \<bar>(10::int) ^ k\<bar> = 10 ^ k"
    by (simp add: nat_power_eq)
  have "k < length (digits (10 ^ k))"
    by (rule length_digits_ge) (rule order_refl)
  with k have "4300 < length (digits (10 ^ k))" by linarith
  then have "4300 < length (digits (nat \<bar>(10::int) ^ k\<bar>))" by (simp only: e)
  then show ?thesis
    by (simp only: val_error_def int_repr_def jval.case if_True sum.case)
qed

lemma long_int_append:
  assumes "f p = None" and "4300 \<le> k"
  shows "append_to_ledger load f p [(u ''n'', JInt (10 ^ k))]
           = (Some ValueError,
              f(p \<mapsto> File True True (''[\<newline>  {\<newline>    '' @ [CHR 0x22, CHR ''n'', CHR 0x22] @ '': '')))"
proof -
  have "write_chunks (list_chunks [[(u ''n'', JInt (10 ^ k))]] @ [Inr (u ''\<newline>'')])
          = (Some ValueError, ''[\<newline>  {\<newline>    '' @ [CHR 0x22, CHR ''n'', CHR 0x22] @ '': '')"
    by (simp add: list_chunks_def obj_chunks_def val_chunk_def long_int_error [OF assms(2)]
        encode_basestring_def escape_char_def newline_indent_def u_def
        replicate_numeral utf8_encode_cp_def char_of_nat_eq)
  with assms(1) show ?thesis by (simp add: append_to_ledger_def)
qed
subsection \<open>The splice\<close>

text \<open>
  What the splice does for every file: it writes the tail at \<open>abs_pos\<close>, the offset
  of the chunk plus the index of the last \<^verbatim>\<open>]\<close> in the decoded chunk, and the bytes
  before \<open>abs_pos\<close> stay.
\<close>

lemma append_json_array_dir:
  assumes "dirname p \<noteq> []" and "f (dirname p) = Some Dir"
  shows "append_json_array load f p entry = append_to_ledger load f p entry"
  by (simp add: append_json_array_def makedirs_existing [where f = f, OF assms])

lemma append_to_ledger_splice:
  assumes "f p = Some (File True True d)" and "d \<noteq> []"
    and "find_last_bracket d = Some abs_pos"
    and "json_error entry = None"
    and "utf8_encode (u '',\<newline>'' @ obj_text 0 entry @ u ''\<newline>]'') = Inr tail"
  shows "append_to_ledger load f p entry
           = (None, f(p \<mapsto> File True True (write_at d abs_pos tail)))"
  using assms by (simp add: append_to_ledger_def binary_write_def json_dumps_def)

lemma write_at_before: "i < off \<Longrightarrow> i < length d \<Longrightarrow> write_at d off b ! i = d ! i"
  by (simp add: write_at_def nth_append)

lemma nonascii_first_append:
  assumes "f p = None"
  shows "append_to_ledger load f p nonascii_record
           = (None, f(p \<mapsto> File True True nonascii_ledger))"
proof -
  have "write_chunks (list_chunks [nonascii_record] @ [Inr (u ''\<newline>'')])
          = (None, nonascii_ledger)"
    by (simp add: list_chunks_def obj_chunks_def val_chunk_def val_error_def val_text_def
        encode_basestring_def escape_char_def newline_indent_def nonascii_record_def u_def
        replicate_numeral utf8_encode_cp_def nonascii_ledger_def char_of_nat_eq)
  with assms show ?thesis
    by (simp add: append_to_ledger_def)
qed

lemma nonascii_decode: "utf8_decode_ignore nonascii_ledger = nonascii_text"
  by (simp add: nonascii_ledger_def utf8_head_def is_cont_def cont_bits_def u_def
      nonascii_text_def)

lemma nonascii_find: "find_last_bracket nonascii_ledger = Some 24"
proof -
  have "length nonascii_ledger = 28" by (simp add: nonascii_ledger_def)
  moreover have "py_rfind 93 nonascii_text = Some 24" by (simp add: nonascii_text_def u_def)
  ultimately show ?thesis
    by (simp add: find_last_bracket_def nonascii_decode scan_back_0)
qed

lemma second_tail_encode:
  "utf8_encode (u '',\<newline>'' @ obj_text 0 second_record @ u ''\<newline>]'') = Inr second_tail"
  by (simp add: dumps_defs second_record_def u_def utf8_encode_cp_def char_of_nat_eq
      digits.simps replicate_numeral second_tail_def)

lemma second_record_short: "json_error second_record = None"
  by (simp add: second_record_def val_error_def int_repr_def digits.simps)

lemma nonascii_second_append:
  "append_to_ledger load (f(p \<mapsto> File True True nonascii_ledger)) p second_record
     = (None, f(p \<mapsto> File True True corrupted_ledger))"
proof -
  have l: "nonascii_ledger \<noteq> []" by (simp add: nonascii_ledger_def)
  have w: "write_at nonascii_ledger 24 second_tail = corrupted_ledger"
    by (simp add: write_at_def nonascii_ledger_def corrupted_ledger_def second_tail_def)
  show ?thesis
    using append_to_ledger_splice [OF _ l nonascii_find second_record_short second_tail_encode,
        of "f(p \<mapsto> File True True nonascii_ledger)" p load]
    by (simp add: w)
qed

lemma ledger_dir:
  "dirname ledger_path \<noteq> []"
  "out_files (dirname ledger_path) = Some Dir"
  "(out_files(ledger_path \<mapsto> n)) (dirname ledger_path) = Some Dir"
  "out_files ledger_path = None"
  by (simp_all add: ledger_path_def example_paths out_files_dir)
    (simp_all add: u_def out_files_def)

lemma corrupted_ledger_unreadable: "read_ledger corrupted_ledger = Inl JSONDecodeError"
proof -
  have "utf8_decode_strict corrupted_ledger = Inr corrupted_text"
    by (simp add: corrupted_ledger_def utf8_head_def is_cont_def cont_bits_def u_def
        corrupted_text_def)
  moreover have "json_loads corrupted_text = None"
    by (simp add: corrupted_text_def u_def json_loads_def skip_ws_def json_ws_def expect_def
        scan_object_def numeral_eq_Suc scan_value_def unescape_def)
  ultimately show ?thesis by (simp add: read_ledger_def)
qed

text \<open>
  C10. The claim has the append leave every byte before the last \<^verbatim>\<open>]\<close> of the file
  as it was. The code takes the index of \<^verbatim>\<open>]\<close> in the decoded text of the chunk for
  a byte offset: after text that is not ASCII the two differ. In the ledger whose first
  record holds two letters of code point 233 the last \<^verbatim>\<open>]\<close> is byte 26, the code writes at byte 24, over the closing
  brace of the record, and the file no longer parses.
\<close>

theorem append_writes_before_last_bracket:
  "py_rfind CHR '']'' nonascii_ledger = Some 26
   \<and> find_last_bracket nonascii_ledger = Some 24
   \<and> append_json_array example_load (out_files(ledger_path \<mapsto> File True True nonascii_ledger))
        ledger_path second_record
       = (None, out_files(ledger_path \<mapsto> File True True corrupted_ledger))
   \<and> take 26 corrupted_ledger \<noteq> take 26 nonascii_ledger
   \<and> nonascii_ledger ! 24 = CHR ''}'' \<and> corrupted_ledger ! 24 = CHR '',''
   \<and> read_ledger corrupted_ledger = Inl JSONDecodeError"
proof -
  have "py_rfind CHR '']'' nonascii_ledger = Some 26"
    by (simp add: nonascii_ledger_def)
  moreover have "take 26 corrupted_ledger \<noteq> take 26 nonascii_ledger"
    by (simp add: nonascii_ledger_def corrupted_ledger_def)
  moreover have "nonascii_ledger ! 24 = CHR ''}''" "corrupted_ledger ! 24 = CHR '',''"
    by (simp_all add: nonascii_ledger_def corrupted_ledger_def)
  moreover have "append_json_array example_load
        (out_files(ledger_path \<mapsto> File True True nonascii_ledger)) ledger_path second_record
       = (None, out_files(ledger_path \<mapsto> File True True corrupted_ledger))"
    by (simp only: append_json_array_dir
          [where f = "out_files(ledger_path \<mapsto> File True True nonascii_ledger)"
             and p = ledger_path, OF ledger_dir(1) ledger_dir(3)]
        nonascii_second_append)
  ultimately show ?thesis
    using nonascii_find corrupted_ledger_unreadable by simp
qed

subsection \<open>Appending to a ledger that starts absent\<close>

lemma py_rfind_last: "c \<notin> set tr \<Longrightarrow> py_rfind c (xs @ c # tr) = Some (length xs)"
proof (induction xs)
  case Nil
  have "py_rfind c tr = None" using Nil by (induction tr) auto
  then show ?case by simp
next
  case (Cons x xs)
  then show ?case by simp
qed

lemma scan_back_found: "py_in (u '']'') chunk \<Longrightarrow> scan_back d pos chunk = (pos, chunk)"
  by (simp add: scan_back.simps)

lemma find_last_bracket_ascii:
  assumes a: "ascii body" and tr: "tr = [] \<or> tr = [10]"
  shows "find_last_bracket (map char_of (body @ 93 # tr)) = Some (length body)"
proof -
  define d where "d = map char_of (body @ 93 # tr)"
  define pos0 where "pos0 = length d - 1024"
  have le: "pos0 \<le> length body"
    using tr by (auto simp: pos0_def d_def)
  have at: "ascii (body @ 93 # tr)" using a tr by auto
  have "drop pos0 d = map char_of (drop pos0 (body @ 93 # tr))"
    unfolding d_def by (rule drop_map)
  moreover have "utf8_decode_ignore (map char_of (drop pos0 (body @ 93 # tr)))
      = drop pos0 (body @ 93 # tr)"
    by (rule utf8_decode_ignore_chars) (rule ascii_drop [OF at])
  ultimately have "utf8_decode_ignore (drop pos0 d) = drop pos0 (body @ 93 # tr)"
    by simp
  then have ch: "utf8_decode_ignore (drop pos0 d) = drop pos0 body @ 93 # tr"
    using le by simp
  have "py_in (u '']'') (drop pos0 body @ 93 # tr)"
    by (simp add: u_def py_in_single)
  then have sb: "scan_back d pos0 (drop pos0 body @ 93 # tr) = (pos0, drop pos0 body @ 93 # tr)"
    by (rule scan_back_found)
  have "93 \<notin> set tr" using tr by auto
  then have rf: "py_rfind 93 (drop pos0 body @ 93 # tr) = Some (length (drop pos0 body))"
    by (rule py_rfind_last)
  have "find_last_bracket d = Some (pos0 + length (drop pos0 body))"
    by (simp add: find_last_bracket_def Let_def pos0_def [symmetric] ch sb rf)
  then show ?thesis
    using le by (simp add: d_def)
qed

lemma list_text_single: "list_text [e] @ u ''\<newline>'' = ledger_text e []"
  by (simp add: list_text_def ledger_text_def ledger_body_def ledger_rest_def u_def
      newline_indent_def)

lemma append_first:
  assumes "f p = None" and "ascii_obj e" and "json_error e = None"
  shows "append_to_ledger load f p e
           = (None, f(p \<mapsto> File True True (map char_of (ledger_text e []))))"
proof -
  have "write_chunks (list_chunks [e] @ [Inr (u ''\<newline>'')])
          = (None, map char_of (chunks_text (list_chunks [e] @ [Inr (u ''\<newline>'')])))"
    by (rule write_chunks_ascii) (rule ascii_list_chunks [OF assms(2,3)])
  then have "write_chunks (list_chunks [e] @ [Inr (u ''\<newline>'')])
          = (None, map char_of (ledger_text e []))"
    by (simp only: list_chunks_text [OF assms(3)] list_text_single)
  with assms(1) show ?thesis by (simp add: append_to_ledger_def)
qed

lemma ledger_rest_snoc:
  "ledger_rest (es @ [x]) = ledger_rest es @ u '',\<newline>'' @ obj_text 0 x @ u ''\<newline>''"
  by (simp add: ledger_rest_def)

lemma append_next:
  assumes fp: "f p = Some (File True True (map char_of (ledger_text e es)))"
    and a: "ascii_obj e" "list_all ascii_obj es" "ascii_obj x"
    and je: "json_error x = None"
  shows "append_to_ledger load f p x
           = (None, f(p \<mapsto> File True True (map char_of (ledger_text e (es @ [x])))))"
proof -
  define tr where "tr = (if es = [] then u ''\<newline>'' else [])"
  define body where "body = ledger_body e es"
  define d where "d = map char_of (body @ 93 # tr)"
  define tail where "tail = u '',\<newline>'' @ obj_text 0 x @ u ''\<newline>]''"
  have d: "map char_of (ledger_text e es) = d"
    by (simp add: d_def ledger_text_def body_def tr_def)
  have trs: "tr = [] \<or> tr = [10]" by (simp add: tr_def u_def)
  have ab: "ascii body" using a by (simp add: body_def ascii_ledger_body)
  have fb: "find_last_bracket d = Some (length body)"
    unfolding d_def by (rule find_last_bracket_ascii [OF ab trs])
  have "ascii tail" using a(3) by (simp add: tail_def ascii_obj_text)
  then have enc: "utf8_encode (u '',\<newline>'' @ obj_text 0 x @ u ''\<newline>]'') = Inr (map char_of tail)"
    unfolding tail_def by (rule utf8_encode_ascii)
  have ne: "d \<noteq> []" by (simp add: d_def)
  have "4 \<le> length tail" by (simp add: tail_def u_def)
  moreover have "length tr \<le> 1" using trs by auto
  ultimately have w: "write_at d (length body) (map char_of tail) = map char_of (body @ tail)"
    by (simp add: write_at_def d_def)
  have "body @ tail = ledger_text e (es @ [x])"
    by (simp add: body_def tail_def ledger_text_def ledger_body_def ledger_rest_snoc u_def)
  with w have w': "write_at d (length body) (map char_of tail)
      = map char_of (ledger_text e (es @ [x]))" by simp
  show ?thesis
    using append_to_ledger_splice [where f = f and p = p and load = load,
        OF fp [unfolded d] ne fb je enc]
    by (simp only: w')
qed

lemma run_appends_next:
  assumes "f p = Some (File True True (map char_of (ledger_text e es)))"
    and "dirname p \<noteq> []" and "f (dirname p) = Some Dir"
    and "ascii_obj e" "list_all ascii_obj es"
    and "\<forall>x\<in>set xs. ascii_obj x \<and> json_error x = None"
  shows "\<exists>f'. run_appends load f p xs = (None, f')
           \<and> f' p = Some (File True True (map char_of (ledger_text e (es @ xs))))"
  using assms
proof (induction xs arbitrary: f es)
  case Nil
  then show ?case by simp
next
  case (Cons x xs)
  define f1 where "f1 = f(p \<mapsto> File True True (map char_of (ledger_text e (es @ [x]))))"
  have x: "ascii_obj x" "json_error x = None" using Cons.prems(6) by simp_all
  have "append_to_ledger load f p x = (None, f1)"
    unfolding f1_def
    by (rule append_next [where f = f and p = p and load = load and x = x,
        OF Cons.prems(1) Cons.prems(4) Cons.prems(5) x])
  then have st: "append_json_array load f p x = (None, f1)"
    by (simp only: append_json_array_dir [where f = f and p = p, OF Cons.prems(2,3)])
  have pd: "p \<noteq> dirname p" using Cons.prems(1,3) by auto
  have f1p: "f1 p = Some (File True True (map char_of (ledger_text e (es @ [x]))))"
    by (simp add: f1_def)
  have f1d: "f1 (dirname p) = Some Dir" using pd Cons.prems(3) by (simp add: f1_def)
  have aes: "list_all ascii_obj (es @ [x])" using Cons.prems(5) x by simp
  have rest: "\<forall>y\<in>set xs. ascii_obj y \<and> json_error y = None" using Cons.prems(6) by simp
  from Cons.IH [where f = f1 and es = "es @ [x]", OF f1p Cons.prems(2) f1d Cons.prems(4) aes rest]
  obtain f' where "run_appends load f1 p xs = (None, f')"
    "f' p = Some (File True True (map char_of (ledger_text e ((es @ [x]) @ xs))))"
    by auto
  with st show ?case by simp
qed

lemma read_ledger_text:
  assumes "ascii_obj e" "list_all ascii_obj es"
    "\<forall>x\<in>set (e # es). distinct (map fst x) \<and> json_error x = None"
  shows "read_ledger (map char_of (ledger_text e es)) = Inr (e # es)"
proof -
  have "ascii (ledger_text e es)" using assms(1,2) by (rule ascii_ledger_text)
  then have "utf8_decode_strict (map char_of (ledger_text e es)) = Inr (ledger_text e es)"
    by (rule utf8_decode_strict_chars)
  then show ?thesis
    by (simp add: read_ledger_def json_loads_ledger [OF assms(3)])
qed

text \<open>
  C2, as amended. Let the directory of the ledger be there, or be made by
  \<^verbatim>\<open>os.makedirs\<close>, and the ledger be absent. For every \<open>N \<ge> 1\<close> and every sequence of
  \<open>N\<close> records with ASCII keys and string values (a \<^verbatim>\<open>dict\<close> has distinct keys) that
  \<^verbatim>\<open>json.dumps\<close> can write (no integer of more than 4300 digits), \<open>N\<close> calls of
  \<^verbatim>\<open>append_json_array\<close> return normally and leave a file that parses as the JSON
  array of exactly those records, in append order.
\<close>

theorem run_appends_ascii:
  assumes dir: "makedirs f (dirname p) = Inr f0" and absent: "f0 p = None" and ne: "es \<noteq> []"
    and ok: "\<forall>e\<in>set es. ascii_obj e \<and> distinct (map fst e) \<and> json_error e = None"
  shows "\<exists>f' b. run_appends load f p es = (None, f')
           \<and> f' p = Some (File True True b)
           \<and> read_ledger b = Inr es"
proof -
  from ne obtain e xs where es: "es = e # xs" by (cases es) auto
  have a: "ascii_obj e" "list_all ascii_obj xs"
    using ok by (auto simp: es list_all_iff)
  have je: "json_error e = None" using ok by (simp add: es)
  from makedirs_Inr [OF dir] have dn: "dirname p \<noteq> []" and dd: "f0 (dirname p) = Some Dir"
    by simp_all
  define f1 where "f1 = f0(p \<mapsto> File True True (map char_of (ledger_text e [])))"
  have "append_to_ledger load f0 p e = (None, f1)"
    unfolding f1_def by (rule append_first [where f = f0 and p = p, OF absent a(1) je])
  then have st: "append_json_array load f p e = (None, f1)"
    by (simp add: append_json_array_def dir)
  have f1p: "f1 p = Some (File True True (map char_of (ledger_text e [])))"
    by (simp add: f1_def)
  have "p \<noteq> dirname p" using absent dd by auto
  then have f1d: "f1 (dirname p) = Some Dir" using dd by (simp add: f1_def)
  have rest: "\<forall>x\<in>set xs. ascii_obj x \<and> json_error x = None" using ok by (simp add: es)
  from run_appends_next [where f = f1 and p = p and es = "[]" and load = load,
      OF f1p dn f1d a(1) _ rest]
  obtain f' where r: "run_appends load f1 p xs = (None, f')"
    "f' p = Some (File True True (map char_of (ledger_text e xs)))"
    by auto
  have "read_ledger (map char_of (ledger_text e xs)) = Inr (e # xs)"
    using read_ledger_text [OF a] ok by (simp add: es)
  with st r show ?thesis by (simp add: es)
qed

lemma example_record_eq:
  "example_record =
     [(u ''root'', JStr (u ''QF_UF'')),
      (u ''alethe'', JStr (u ''a.smt2.alethe'')),
      (u ''hole'', JStr (u ''h1'')),
      (u ''line'', JInt 1),
      (u ''slice'', JStr (u ''a__from-h1.smt2.alethe'')),
      (u ''smt2'', JStr (u ''a.smt2'')),
      (u ''out'', JStr (u ''a__from-h1.out'')),
      (u ''ok'', JBool False),
      (u ''success'', JInt 3),
      (u ''failed'', JInt 1),
      (u ''panicked'', JBool False),
      (u ''timeout'', JBool False),
      (u ''elapsed'', JStr (u ''1.00m''))]"
  apply (simp only: example_record_def result_record_def example_paths)
  apply (simp add: example_job_def example_result_def u_def)
  done

lemma example_record_ok:
  "ascii_obj example_record" "distinct (map fst example_record)"
  "json_error example_record = None"
  "ascii_obj second_record" "distinct (map fst second_record)"
  by (simp_all add: example_record_eq ascii_obj_def second_record_def
      val_error_def int_repr_def digits.simps u_eq_iff)

theorem run_appends_ascii_witness:
  "makedirs out_files (dirname ledger_path) = Inr out_files
   \<and> out_files ledger_path = None
   \<and> ascii_obj example_record \<and> distinct (map fst example_record)
   \<and> json_error example_record = None
   \<and> ascii_obj second_record \<and> distinct (map fst second_record)
   \<and> json_error second_record = None
   \<and> (\<exists>f' b. run_appends example_load out_files ledger_path [example_record, second_record]
                  = (None, f')
              \<and> f' ledger_path = Some (File True True b)
              \<and> read_ledger b = Inr [example_record, second_record])"
proof -
  have m: "makedirs out_files (dirname ledger_path) = Inr out_files"
    by (rule makedirs_existing [where f = out_files, OF ledger_dir(1) ledger_dir(2)])
  from run_appends_ascii [OF m ledger_dir(4), of "[example_record, second_record]"
      example_load] example_record_ok second_record_short m ledger_dir(4)
  show ?thesis by simp
qed

text \<open>
  C2 as stated fails. With \<open>N = 0\<close> nothing is called and there is no file. With the
  record that holds two letters of code point 233 and a second record, the second
  append leaves a file that does not parse (the defect of C10). For a ledger path
  without a directory part the first call raises, in \<^verbatim>\<open>os.makedirs\<close>. And for a record
  with an integer of 4301 digits the first call raises \<^verbatim>\<open>ValueError\<close> and leaves the
  beginning of the array.
\<close>

theorem run_appends_counterexample:
  "\<not> (\<exists>f' b. run_appends example_load out_files ledger_path [] = (None, f')
              \<and> f' ledger_path = Some (File True True b)
              \<and> read_ledger b = Inr [])
   \<and> \<not> (\<exists>f' b. run_appends example_load out_files ledger_path
                    [nonascii_record, second_record] = (None, f')
              \<and> f' ledger_path = Some (File True True b)
              \<and> read_ledger b = Inr [nonascii_record, second_record])
   \<and> run_appends example_load Map.empty bare_path [second_record]
       = (Some FileNotFoundError, Map.empty)
   \<and> run_appends example_load out_files ledger_path [[(u ''n'', JInt (10 ^ 4300))]]
       = (Some ValueError,
          out_files(ledger_path \<mapsto> File True True
            (''[\<newline>  {\<newline>    '' @ [CHR 0x22, CHR ''n'', CHR 0x22] @ '': '')))"
proof -
  have c1: "\<not> (\<exists>f' b. run_appends example_load out_files ledger_path [] = (None, f')
              \<and> f' ledger_path = Some (File True True b)
              \<and> read_ledger b = Inr [])"
    using ledger_dir(4) by simp
  have "append_json_array example_load out_files ledger_path nonascii_record
      = (None, out_files(ledger_path \<mapsto> File True True nonascii_ledger))"
    by (simp only: append_json_array_dir [where f = out_files and p = ledger_path,
          OF ledger_dir(1) ledger_dir(2)]
        nonascii_first_append [where f = out_files, OF ledger_dir(4)])
  moreover have "append_json_array example_load
        (out_files(ledger_path \<mapsto> File True True nonascii_ledger)) ledger_path second_record
       = (None, out_files(ledger_path \<mapsto> File True True corrupted_ledger))"
    by (simp only: append_json_array_dir
          [where f = "out_files(ledger_path \<mapsto> File True True nonascii_ledger)"
             and p = ledger_path, OF ledger_dir(1) ledger_dir(3)]
        nonascii_second_append)
  ultimately have "run_appends example_load out_files ledger_path
      [nonascii_record, second_record]
      = (None, out_files(ledger_path \<mapsto> File True True corrupted_ledger))"
    by simp
  then have c2: "\<not> (\<exists>f' b. run_appends example_load out_files ledger_path
                    [nonascii_record, second_record] = (None, f')
              \<and> f' ledger_path = Some (File True True b)
              \<and> read_ledger b = Inr [nonascii_record, second_record])"
    by (simp add: corrupted_ledger_unreadable)
  have "dirname bare_path = []"
    by (simp add: bare_path_def path_defs u_def)
  then have c3: "run_appends example_load Map.empty bare_path [second_record]
       = (Some FileNotFoundError, Map.empty)"
    by (simp add: append_json_array_def makedirs_empty)
  have l: "(4300::nat) \<le> 4300" by simp
  have c4: "run_appends example_load out_files ledger_path [[(u ''n'', JInt (10 ^ 4300))]]
       = (Some ValueError,
          out_files(ledger_path \<mapsto> File True True
            (''[\<newline>  {\<newline>    '' @ [CHR 0x22, CHR ''n'', CHR 0x22] @ '': '')))"
    by (simp only: run_appends.simps
        append_json_array_dir [where f = out_files and p = ledger_path,
          OF ledger_dir(1) ledger_dir(2)]
        long_int_append [where f = out_files, OF ledger_dir(4) l] prod.case option.case)
  from c1 c2 c3 c4 show ?thesis by blast
qed
subsection \<open>The fallback\<close>

text \<open>
  Whatever \<^verbatim>\<open>json.load\<close> answers, the fallback does not rewrite the file as an
  array: either \<^verbatim>\<open>existing.append\<close> raises and the file stays, or the file is
  truncated and \<^verbatim>\<open>json.dump\<close> raises \<^verbatim>\<open>TypeError\<close> on the binary file.
\<close>

lemma append_to_ledger_fallback:
  assumes "f p = Some (File True True d)" and "d \<noteq> []" and "find_last_bracket d = None"
  shows "append_to_ledger load f p entry = (Some AttributeError, f)
         \<or> append_to_ledger load f p entry = (Some TypeError, f(p \<mapsto> File True True []))"
  using assms by (simp add: append_to_ledger_def binary_write_def split: loaded.splits)

text \<open>
  C6. The claim has the fallback rewrite the file as the array of the parsed entries
  and the new record. For a ledger cut off before any \<^verbatim>\<open>]\<close>, on which
  \<^verbatim>\<open>json.load\<close> raises, the code leaves an empty file and raises \<^verbatim>\<open>TypeError\<close>:
  the file is open in binary mode and \<^verbatim>\<open>json.dump\<close> writes \<^verbatim>\<open>str\<close>.
\<close>

theorem append_fallback_truncates:
  "find_last_bracket truncated_ledger = None
   \<and> append_json_array example_load
        (out_files(ledger_path \<mapsto> File True True truncated_ledger)) ledger_path second_record
       = (Some TypeError, out_files(ledger_path \<mapsto> File True True []))"
proof -
  have d: "utf8_decode_ignore truncated_ledger = u ''[\<newline>  {\<newline>    '' @ [34, 97, 34] @ u '': ''"
    by (simp add: truncated_ledger_def utf8_head_def u_def)
  have l: "length truncated_ledger = 15" by (simp add: truncated_ledger_def)
  have n: "find_last_bracket truncated_ledger = None"
    by (simp add: find_last_bracket_def d l scan_back_0) (simp add: u_def)
  have ne: "truncated_ledger \<noteq> []" by (simp add: truncated_ledger_def)
  have "append_to_ledger example_load
        (out_files(ledger_path \<mapsto> File True True truncated_ledger)) ledger_path second_record
       = (Some TypeError, out_files(ledger_path \<mapsto> File True True []))"
    using n ne by (simp add: append_to_ledger_def binary_write_def example_load_def)
  then show ?thesis
    using n
    by (simp only: append_json_array_dir
          [where f = "out_files(ledger_path \<mapsto> File True True truncated_ledger)"
             and p = ledger_path, OF ledger_dir(1) ledger_dir(3)], simp?)
qed

subsection \<open>Rounding to a double: bounds and evaluation\<close>

lemma bit_length_bounds:
  "0 < n \<Longrightarrow> 2 ^ (bit_length n - 1) \<le> n \<and> n < 2 ^ bit_length n"
proof (induction n rule: bit_length.induct)
  case (1 n)
  show ?case
  proof (cases "n div 2 = 0")
    case True
    with 1(2) have "n = 1" by linarith
    then show ?thesis by (simp add: bit_length.simps)
  next
    case False
    then have pos: "0 < n div 2" by simp
    have bl: "bit_length n = Suc (bit_length (n div 2))"
      using 1(2) by (subst bit_length.simps) simp
    from 1(1) [OF _ pos] 1(2)
    have ih: "2 ^ (bit_length (n div 2) - 1) \<le> n div 2" "n div 2 < 2 ^ bit_length (n div 2)"
      by auto
    have "0 < bit_length (n div 2)"
      using pos by (subst bit_length.simps) simp
    then obtain k where k: "bit_length (n div 2) = Suc k" by (cases "bit_length (n div 2)") auto
    from ih k have "2 * 2 ^ k \<le> n" by (simp; linarith)
    moreover from ih k have "n < 2 * 2 ^ Suc k" by (simp; linarith)
    ultimately show ?thesis by (simp add: bl k)
  qed
qed

lemma rhe_frac_bounds:
  assumes "0 \<le> a" and "0 < b"
  shows "0 \<le> rhe_frac a b \<and> rhe_frac a b * b \<le> a + b"
proof -
  have q: "0 \<le> a div b" using assms by (simp add: pos_imp_zdiv_nonneg_iff)
  have "a div b * b \<le> a" using assms pos_mod_sign [of b a] div_mult_mod_eq [of a b] by linarith
  then have "(a div b + 1) * b \<le> a + b" by (simp add: algebra_simps)
  moreover have "a div b * b \<le> a + b" using \<open>a div b * b \<le> a\<close> assms by linarith
  ultimately show ?thesis
    using q by (auto simp: rhe_frac_def Let_def)
qed

lemma ilog2_frac_lower:
  assumes a: "0 < a" and b: "0 < b" and k: "0 \<le> k" and le: "k \<le> ilog2_frac a b"
  shows "b * 2 ^ nat k \<le> a"
proof -
  define la where "la = bit_length (nat a)"
  define lb where "lb = bit_length (nat b)"
  define d where "d = int la - int lb"
  from bit_length_bounds [of "nat a"] a
  have ba: "2 ^ (la - 1) \<le> nat a" by (simp add: la_def)
  from bit_length_bounds [of "nat b"] b
  have bb: "nat b < 2 ^ lb" by (simp add: lb_def)
  have res: "ilog2_frac a b = (if (if 0 \<le> d then b * 2 ^ nat d \<le> a else b \<le> a * 2 ^ nat (- d))
                               then d else d - 1)"
    by (simp add: ilog2_frac_def Let_def la_def lb_def d_def)
  show ?thesis
  proof (cases "0 \<le> d \<and> b * 2 ^ nat d \<le> a")
    case True
    then have "ilog2_frac a b = d" by (simp add: res)
    with le have "nat k \<le> nat d" by simp
    then have "(2::int) ^ nat k \<le> 2 ^ nat d" by (simp add: power_increasing)
    then have "b * 2 ^ nat k \<le> b * 2 ^ nat d" using b by simp
    with True show ?thesis by linarith
  next
    case False
    have "ilog2_frac a b \<le> d" by (simp add: res)
    show ?thesis
    proof (cases "0 \<le> d")
      case True
      with False have "ilog2_frac a b = d - 1" by (simp add: res)
      with le k have kd: "nat k \<le> nat d - 1" and d1: "1 \<le> d" by auto
      have "la = lb + nat d" using True by (simp add: d_def)
      then have la1: "la - 1 = lb + (nat d - 1)" using d1 by auto
      have bi: "b < 2 ^ lb" using bb b by (simp add: nat_less_iff)
      have ai: "2 ^ (la - 1) \<le> a" using ba a by (simp add: le_nat_iff)
      have "b * 2 ^ (nat d - 1) < 2 ^ lb * 2 ^ (nat d - 1)"
        using bi by (simp only: mult_less_cancel_right) simp
      also have "\<dots> = 2 ^ (la - 1)" by (simp only: la1 power_add)
      finally have "b * 2 ^ (nat d - 1) < a" using ai by linarith
      moreover have "(2::int) ^ nat k \<le> 2 ^ (nat d - 1)" using kd by (simp add: power_increasing)
      then have "b * 2 ^ nat k \<le> b * 2 ^ (nat d - 1)" using b by simp
      ultimately show ?thesis by linarith
    next
      case False
      then have "ilog2_frac a b < 0" using \<open>ilog2_frac a b \<le> d\<close> by linarith
      with le k show ?thesis by linarith
    qed
  qed
qed

lemma round_frac_bounded:
  assumes a: "0 \<le> a" and b: "0 < b" and c: "1 \<le> c" and ac: "a \<le> c * b"
    and small: "2 * c < 2 ^ 1024"
  shows "\<exists>m s. round_frac a b = Fin m s \<and> 0 \<le> m \<and> fbound m s (2 * c)"
proof (cases "a = 0")
  case True
  then show ?thesis using c by (simp add: round_frac_def fbound_def)
next
  case False
  with a have pos: "0 < a" by simp
  define s where "s = max (ilog2_frac a b) (- 1022) - 52"
  define m where "m = (if 0 \<le> s then rhe_frac a (b * 2 ^ nat s) else rhe_frac (a * 2 ^ nat (- s)) b)"
  have rf: "round_frac a b = (if 0 \<le> s \<and> 2 ^ 1024 \<le> m * 2 ^ nat s then PosInf else Fin m s)"
    using pos by (simp add: round_frac_def Let_def s_def m_def)
  show ?thesis
  proof (cases "0 \<le> s")
    case True
    then have "s \<le> ilog2_frac a b" by (simp add: s_def max_def split: if_splits)
    from ilog2_frac_lower [OF pos b True this] have low: "b * 2 ^ nat s \<le> a" .
    have bp: "0 < b * 2 ^ nat s" using b by simp
    from rhe_frac_bounds [OF a bp] True
    have m0: "0 \<le> m" and mb: "m * (b * 2 ^ nat s) \<le> a + b * 2 ^ nat s"
      by (simp_all add: m_def)
    from mb low have "m * 2 ^ nat s * b \<le> 2 * a" by (simp add: algebra_simps)
    also have "\<dots> \<le> (2 * c) * b" using ac by simp
    finally have "m * 2 ^ nat s \<le> 2 * c" using b by (simp only: mult_le_cancel_right, simp?)
    with small True m0 show ?thesis by (simp add: rf fbound_def)
  next
    case False
    have ap: "0 \<le> a * 2 ^ nat (- s)" using a by simp
    from rhe_frac_bounds [OF ap b] False
    have m0: "0 \<le> m" and mb: "m * b \<le> a * 2 ^ nat (- s) + b" by (simp_all add: m_def)
    have "a * 2 ^ nat (- s) \<le> c * b * 2 ^ nat (- s)" using ac by simp
    moreover have "b \<le> c * b * 2 ^ nat (- s)"
    proof -
      have "1 * 1 \<le> c * 2 ^ nat (- s)" using c by (intro mult_mono) simp_all
      then have "1 \<le> c * 2 ^ nat (- s)" by simp
      then have "b * 1 \<le> b * (c * 2 ^ nat (- s))" using b by (simp only: mult_le_cancel_left_pos)
      then show ?thesis by (simp add: algebra_simps)
    qed
    ultimately have "m * b \<le> c * b * 2 ^ nat (- s) + c * b * 2 ^ nat (- s)"
      using mb by linarith
    also have "\<dots> = (2 * c * 2 ^ nat (- s)) * b" by (simp add: algebra_simps)
    finally have "m * b \<le> (2 * c * 2 ^ nat (- s)) * b" .
    then have "m \<le> 2 * c * 2 ^ nat (- s)" using b by (simp only: mult_le_cancel_right, simp?)
    with False m0 show ?thesis by (simp add: rf fbound_def)
  qed
qed

lemma bit_length_1: "bit_length (Suc 0) = 1"
  by (simp add: bit_length.simps)

lemma bit_length_Bit0: "bit_length (numeral (Num.Bit0 n)) = bit_length (numeral n) + 1"
  by (subst bit_length.simps) simp

lemma bit_length_Bit1: "bit_length (numeral (Num.Bit1 n)) = bit_length (numeral n) + 1"
  by (subst bit_length.simps) simp

lemmas bit_length_numeral = bit_length_1 bit_length_Bit0 bit_length_Bit1

lemma rhe_frac_down:
  fixes a b q :: int
  assumes "0 \<le> a - q * b" and "2 * (a - q * b) < b"
  shows "rhe_frac a b = q"
proof -
  define r where "r = a - q * b"
  have r: "0 \<le> r" "2 * r < b" using assms by (simp_all add: r_def)
  then have rb: "r < b" by linarith
  have a: "a = b * q + r" by (simp add: r_def)
  have "a div b = q" by (rule int_div_pos_eq [OF a r(1) rb])
  moreover have "a mod b = r" by (rule int_mod_pos_eq [OF a r(1) rb])
  ultimately show ?thesis using r by (simp add: rhe_frac_def Let_def)
qed

lemma rhe_frac_up:
  fixes a b q :: int
  assumes "b < 2 * (a - q * b)" and "a - q * b < b"
  shows "rhe_frac a b = q + 1"
proof -
  define r where "r = a - q * b"
  have r: "b < 2 * r" "r < b" using assms by (simp_all add: r_def)
  then have r0: "0 \<le> r" by linarith
  have a: "a = b * q + r" by (simp add: r_def)
  have "a div b = q" by (rule int_div_pos_eq [OF a r0 r(2)])
  moreover have "a mod b = r" by (rule int_mod_pos_eq [OF a r0 r(2)])
  ultimately show ?thesis using r by (simp add: rhe_frac_def Let_def)
qed

lemma round_frac_large:
  assumes "0 < a" and "ilog2_frac a b = E" and "52 \<le> E"
    and "rhe_frac a (b * 2 ^ nat (E - 52)) = m"
  shows "round_frac a b = (if 2 ^ 1024 \<le> m * 2 ^ nat (E - 52) then PosInf else Fin m (E - 52))"
  using assms by (simp add: round_frac_def Let_def max_def)

lemma ilog2_huge: "ilog2_frac (10 ^ 320) 60000000000 = 1027"
  by (simp add: ilog2_frac_def Let_def bit_length_numeral)

lemma rhe_huge: "rhe_frac (10 ^ 320) (60000000000 * 2 ^ nat (1027 - 52)) = 5219188437523366 + 1"
  by (rule rhe_frac_up) simp_all

lemma round_huge: "round_frac (10 ^ 320) 60000000000 = PosInf"
  by (subst round_frac_large [OF _ ilog2_huge _ rhe_huge]) simp_all

lemma ilog2_large: "ilog2_frac (2 * 10 ^ 317) 60000000000 = 1018"
  by (simp add: ilog2_frac_def Let_def bit_length_numeral)

lemma rhe_large: "rhe_frac (2 * 10 ^ 317) (60000000000 * 2 ^ nat (1018 - 52)) = 5344448960023927"
  by (rule rhe_frac_down) simp_all

lemma round_large: "round_frac (2 * 10 ^ 317) 60000000000 = Fin 5344448960023927 966"
  by (subst round_frac_large [OF _ ilog2_large _ rhe_large]) simp_all

subsection \<open>C9: what human_elapsed writes, parse_elapsed_to_seconds reads\<close>

lemma dropWhile_none: "list_all (\<lambda>c. \<not> P c) xs \<Longrightarrow> dropWhile P xs = xs"
  by (cases xs) auto

lemma elapsed_char_strip_lower:
  assumes "list_all elapsed_char s"
  shows "py_lower (py_strip s) = s"
proof -
  have ns: "list_all (\<lambda>c. \<not> py_isspace c) s"
    using assms by (induction s) (auto simp: elapsed_char_def is_digit_def py_isspace_def)
  then have "list_all (\<lambda>c. \<not> py_isspace c) (rev s)" by (simp add: list_all_iff)
  then have "py_strip s = s" using ns by (simp add: py_strip_def dropWhile_none)
  moreover have "py_lower s = s"
    using assms by (induction s) (auto simp: py_lower_def elapsed_char_def is_digit_def)
  ultimately show ?thesis by simp
qed

lemma unit_cases:
  "unit \<in> set elapsed_units \<Longrightarrow>
     unit = u ''ns'' \<or> unit = u ''ms'' \<or> unit = u ''s'' \<or> unit = u ''m''"
  by (simp add: elapsed_units_def)

lemma find_unit:
  assumes "unit \<in> set elapsed_units"
  shows "find (\<lambda>w. startswith unit w \<and> list_all py_isspace (drop (length w) unit))
           elapsed_units = Some unit"
  using unit_cases [OF assms] by (auto simp: elapsed_units_def u_def)

lemma unit_hd:
  assumes "unit \<in> set elapsed_units"
  shows "unit \<noteq> [] \<and> \<not> is_digit (hd unit) \<and> hd unit \<noteq> 46 \<and> \<not> py_isspace (hd unit)
         \<and> list_all elapsed_char unit"
  using unit_cases [OF assms] by (auto simp: u_def is_digit_def py_isspace_def elapsed_char_def)

lemma digit_not_space: "is_digit c \<Longrightarrow> \<not> py_isspace c"
  by (auto simp: is_digit_def py_isspace_def)

lemma elapsed_re_match_int:
  assumes D: "list_all is_digit D" "D \<noteq> []" and un: "unit \<in> set elapsed_units"
  shows "elapsed_re_match (D @ unit) = Some (D, unit)"
proof -
  from D have "\<not> py_isspace (hd (D @ unit))" by (cases D) (auto simp: digit_not_space)
  then have s1: "dropWhile py_isspace (D @ unit) = D @ unit" using D by (cases D) auto
  from unit_hd [OF un] have "unit = [] \<or> \<not> is_digit (hd unit)" by simp
  from takeWhile_all [OF D(1) this]
  have td: "takeWhile is_digit (D @ unit) = D" "dropWhile is_digit (D @ unit) = unit" by auto
  show ?thesis
    using unit_hd [OF un] D(2) find_unit [OF un]
    by (simp add: elapsed_re_match_def Let_def s1 td)
qed

lemma elapsed_re_match_frac:
  assumes D: "list_all is_digit D" "D \<noteq> []" and F: "list_all is_digit F" "F \<noteq> []"
    and un: "unit \<in> set elapsed_units"
  shows "elapsed_re_match (D @ 46 # F @ unit) = Some (D @ 46 # F, unit)"
proof -
  from D have "\<not> py_isspace (hd (D @ 46 # F @ unit))" by (cases D) (auto simp: digit_not_space)
  then have s1: "dropWhile py_isspace (D @ 46 # F @ unit) = D @ 46 # F @ unit"
    using D by (cases D) auto
  have "46 # F @ unit = [] \<or> \<not> is_digit (hd (46 # F @ unit))" by (simp add: is_digit_def)
  from takeWhile_all [OF D(1) this]
  have td: "takeWhile is_digit (D @ 46 # F @ unit) = D"
    "dropWhile is_digit (D @ 46 # F @ unit) = 46 # F @ unit" by auto
  from unit_hd [OF un] have "unit = [] \<or> \<not> is_digit (hd unit)" by simp
  from takeWhile_all [OF F(1) this]
  have tf: "takeWhile is_digit (F @ unit) = F" "dropWhile is_digit (F @ unit) = unit" by auto
  show ?thesis
    using D(2) F(2) find_unit [OF un]
    by (simp add: elapsed_re_match_def Let_def s1 td tf)
qed

lemma float_of_decimal_int:
  assumes "list_all is_digit D"
  shows "float_of_decimal D = round_frac (int (digits_value D)) 1"
proof -
  from takeWhile_all [OF assms, where rest = "[]"] have tw: "takeWhile is_digit D = D" by simp
  show ?thesis by (simp add: float_of_decimal_def Let_def tw)
qed

lemma float_of_decimal_frac:
  assumes "list_all is_digit D"
  shows "float_of_decimal (D @ 46 # F) = round_frac (int (digits_value (D @ F))) (10 ^ length F)"
proof -
  have "46 # F = [] \<or> \<not> is_digit (hd (46 # F))" by (simp add: is_digit_def)
  from takeWhile_all [OF assms this] have "takeWhile is_digit (D @ 46 # F) = D" by simp
  then show ?thesis by (simp add: float_of_decimal_def Let_def)
qed

lemma digits_value_app:
  "digits_value (xs @ ys) = digits_value xs * 10 ^ length ys + digits_value ys"
proof (induction ys rule: rev_induct)
  case Nil
  then show ?case by (simp add: digits_value_def)
next
  case (snoc c ys)
  have "digits_value (xs @ ys @ [c]) = 10 * digits_value (xs @ ys) + (c - 48)"
    using digits_value_append [of "xs @ ys" c] by simp
  then show ?case by (simp add: snoc digits_value_append algebra_simps)
qed

lemma zero_pad_two:
  assumes "r < 100"
  shows "length (zero_pad 2 (digits r)) = 2 \<and> list_all is_digit (zero_pad 2 (digits r))
         \<and> digits_value (zero_pad 2 (digits r)) = r"
proof (cases "r < 10")
  case True
  then have "digits r = [48 + r]" by (subst digits.simps) simp
  then show ?thesis using True by (simp add: zero_pad_def is_digit_def digits_value_def)
next
  case False
  then have d: "r div 10 < 10" using assms by simp
  have "digits r = digits (r div 10) @ [48 + r mod 10]" using False by (subst digits.simps) simp
  also have "digits (r div 10) = [48 + r div 10]" using d by (subst digits.simps) simp
  finally have "digits r = [48 + r div 10, 48 + r mod 10]" by simp
  then show ?thesis using d by (simp add: zero_pad_def is_digit_def digits_value_def)
qed

lemma format_f_0:
  assumes "0 \<le> m"
  shows "format_f 0 (Fin m e) = digits (scaled 0 m e)"
  using assms by (simp add: format_f_def scaled_def Let_def)

lemma format_f_2:
  assumes "0 \<le> m"
  shows "format_f 2 (Fin m e) =
           digits (scaled 2 m e div 100) @ 46 # zero_pad 2 (digits (scaled 2 m e mod 100))"
  using assms by (simp add: format_f_def scaled_def Let_def)

lemma scaled_bound:
  assumes m: "0 \<le> m" and fb: "fbound m e c"
  shows "int (scaled p m e) \<le> c * 10 ^ p + 1"
proof (cases "0 \<le> e")
  case True
  with fb have "m * 2 ^ nat e \<le> c" by (simp add: fbound_def)
  then have le: "m * 2 ^ nat e * 10 ^ p \<le> c * 10 ^ p" by simp
  have "0 \<le> m * 2 ^ nat e * 10 ^ p" using m by simp
  then have "int (scaled p m e) = m * 2 ^ nat e * 10 ^ p" using True m by (simp add: scaled_def)
  with le show ?thesis by linarith
next
  case False
  with fb have mc: "m \<le> c * 2 ^ nat (- e)" by (simp add: fbound_def)
  define P :: int where "P = 2 ^ nat (- e)"
  have Pp: "0 < P" by (simp add: P_def)
  have a0: "0 \<le> m * 10 ^ p" using m by simp
  from rhe_frac_bounds [OF a0 Pp]
  have r0: "0 \<le> rhe_frac (m * 10 ^ p) P" and rb: "rhe_frac (m * 10 ^ p) P * P \<le> m * 10 ^ p + P"
    by auto
  have "m * 10 ^ p \<le> c * P * 10 ^ p" using mc by (simp add: P_def)
  moreover have "(c * 10 ^ p + 1) * P = c * P * 10 ^ p + P" by (simp add: algebra_simps)
  ultimately have "rhe_frac (m * 10 ^ p) P * P \<le> (c * 10 ^ p + 1) * P" using rb by linarith
  then have "rhe_frac (m * 10 ^ p) P \<le> c * 10 ^ p + 1" using Pp
    by (simp only: mult_le_cancel_right, simp?)
  moreover have "int (scaled p m e) = rhe_frac (m * 10 ^ p) P"
    using False m r0 by (simp add: scaled_def P_def)
  ultimately show ?thesis by linarith
qed

lemma digits_elapsed_char: "list_all is_digit ds \<Longrightarrow> list_all elapsed_char ds"
  by (induction ds) (auto simp: elapsed_char_def)

lemma match_int_str:
  assumes un: "unit \<in> set elapsed_units"
  shows "elapsed_re_match (py_lower (py_strip (digits n @ unit))) = Some (digits n, unit)"
proof -
  have "list_all elapsed_char (digits n @ unit)"
    using digits_elapsed_char [OF digits_all [of n]] unit_hd [OF un] by simp
  from elapsed_char_strip_lower [OF this] show ?thesis
    by (simp add: elapsed_re_match_int [OF digits_all digits_nonempty un])
qed

lemma match_frac_str:
  assumes un: "unit \<in> set elapsed_units" and r: "r < 100"
  shows "elapsed_re_match (py_lower (py_strip (digits q @ 46 # zero_pad 2 (digits r) @ unit)))
           = Some (digits q @ 46 # zero_pad 2 (digits r), unit)"
proof -
  from zero_pad_two [OF r]
  have F: "list_all is_digit (zero_pad 2 (digits r))" "zero_pad 2 (digits r) \<noteq> []" by auto
  have "list_all elapsed_char (digits q @ 46 # zero_pad 2 (digits r) @ unit)"
    using digits_elapsed_char [OF digits_all [of q]] digits_elapsed_char [OF F(1)] unit_hd [OF un]
    by (simp add: elapsed_char_def)
  from elapsed_char_strip_lower [OF this] show ?thesis
    by (simp add: elapsed_re_match_frac [OF digits_all digits_nonempty F un])
qed

lemma decimal_frac_value:
  assumes r: "r < 100"
  shows "float_of_decimal (digits q @ 46 # zero_pad 2 (digits r)) = round_frac (int (q * 100 + r)) 100"
  using zero_pad_two [OF r]
  by (simp add: float_of_decimal_frac [OF digits_all] digits_value_app digits_value_digits)

lemma decimal_int_value: "float_of_decimal (digits n) = round_frac (int n) 1"
  by (simp add: float_of_decimal_int [OF digits_all] digits_value_digits)

lemma units_mem:
  "u ''ns'' \<in> set elapsed_units" "u ''ms'' \<in> set elapsed_units"
  "u ''s'' \<in> set elapsed_units" "u ''m'' \<in> set elapsed_units"
  by (simp_all add: elapsed_units_def)

lemma parse_ns_str:
  "parse_elapsed_to_seconds (PStr (digits n @ u ''ns''))
     = Inr (float_div (round_frac (int n) 1) 1000000000)"
  by (simp add: parse_elapsed_to_seconds_def match_int_str [OF units_mem(1)] decimal_int_value)

lemma parse_ms_str:
  "parse_elapsed_to_seconds (PStr (digits n @ u ''ms''))
     = Inr (float_div (round_frac (int n) 1) 1000)"
  by (simp add: parse_elapsed_to_seconds_def match_int_str [OF units_mem(2)] decimal_int_value)
    (simp add: u_def)

lemma parse_s_str:
  "parse_elapsed_to_seconds
     (PStr (digits (n div 100) @ 46 # zero_pad 2 (digits (n mod 100)) @ u ''s''))
     = Inr (round_frac (int n) 100)"
  by (simp add: parse_elapsed_to_seconds_def match_frac_str [OF units_mem(3)] decimal_frac_value)
    (simp add: u_def)

lemma parse_m_str:
  "parse_elapsed_to_seconds
     (PStr (digits (n div 100) @ 46 # zero_pad 2 (digits (n mod 100)) @ u ''m''))
     = Inr (float_mul (round_frac (int n) 100) 60)"
  by (simp add: parse_elapsed_to_seconds_def match_frac_str [OF units_mem(4)] decimal_frac_value)
    (simp add: u_def)

lemma float_div_finite:
  assumes m: "0 \<le> m" and fb: "fbound m s c" and c: "1 \<le> c" and k: "0 < k"
    and small: "2 * c < 2 ^ 1024"
  shows "\<exists>m' s'. float_div (Fin m s) k = Fin m' s'"
proof (cases "0 \<le> s")
  case True
  with fb have "m * 2 ^ nat s \<le> c" by (simp add: fbound_def)
  moreover have "c * 1 \<le> c * k" using c k by (intro mult_left_mono) simp_all
  ultimately have le: "m * 2 ^ nat s \<le> c * k" by simp
  have "0 \<le> m * 2 ^ nat s" using m by simp
  from round_frac_bounded [OF this k c le small] show ?thesis using True
    by (auto simp: float_div_def)
next
  case False
  with fb have "m \<le> c * 2 ^ nat (- s)" by (simp add: fbound_def)
  moreover have "c * 2 ^ nat (- s) * 1 \<le> c * 2 ^ nat (- s) * k"
    using c k by (intro mult_left_mono) simp_all
  ultimately have le: "m \<le> c * (k * 2 ^ nat (- s))" by (simp add: algebra_simps)
  have kp: "0 < k * 2 ^ nat (- s)" using k by simp
  from round_frac_bounded [OF m kp c le small] show ?thesis using False
    by (auto simp: float_div_def)
qed

lemma float_mul_finite:
  assumes m: "0 \<le> m" and fb: "fbound m s c" and c: "1 \<le> c" and k: "0 < k"
    and small: "2 * (c * k) < 2 ^ 1024"
  shows "\<exists>m' s'. float_mul (Fin m s) k = Fin m' s'"
proof -
  have "1 * 1 \<le> c * k" using c k by (intro mult_mono) simp_all
  then have ck: "1 \<le> c * k" by simp
  show ?thesis
  proof (cases "0 \<le> s")
    case True
    with fb have "m * 2 ^ nat s \<le> c" by (simp add: fbound_def)
    then have "m * 2 ^ nat s * k \<le> c * k" using k by (simp only: mult_le_cancel_right, simp?)
    then have le: "m * k * 2 ^ nat s \<le> c * k * 1" by (simp add: algebra_simps)
    have "0 \<le> m * k * 2 ^ nat s" using m k by simp
    from round_frac_bounded [OF this zero_less_one ck le small] show ?thesis using True
      by (auto simp: float_mul_def)
  next
    case False
    with fb have "m \<le> c * 2 ^ nat (- s)" by (simp add: fbound_def)
    then have "m * k \<le> c * 2 ^ nat (- s) * k" using k by (simp only: mult_le_cancel_right, simp?)
    then have le: "m * k \<le> c * k * 2 ^ nat (- s)" by (simp add: algebra_simps)
    have mk: "0 \<le> m * k" using m k by simp
    have pp: "(0::int) < 2 ^ nat (- s)" by simp
    from round_frac_bounded [OF mk pp ck le small] show ?thesis using False
      by (auto simp: float_mul_def)
  qed
qed

lemma length_digits_le: "n < 10 ^ k \<Longrightarrow> 0 < k \<Longrightarrow> length (digits n) \<le> k"
proof (induction n arbitrary: k rule: digits.induct)
  case (1 n)
  show ?case
  proof (cases "n < 10")
    case True
    then show ?thesis using "1.prems"(2) by (subst digits.simps) simp
  next
    case False
    from "1.prems"(2) obtain k' where k: "k = Suc k'" by (cases k) auto
    have k': "0 < k'"
    proof (rule ccontr)
      assume "\<not> 0 < k'"
      then have "k' = 0" by simp
      with "1.prems"(1) False show False by (simp add: k)
    qed
    have "n div 10 < 10 ^ k'"
      using "1.prems"(1) by (simp add: k less_mult_imp_div_less mult.commute)
    from "1.IH" [OF False this k'] have "length (digits (n div 10)) \<le> k'" .
    then show ?thesis using False by (subst digits.simps) (simp add: k)
  qed
qed

lemma int_repr_small:
  assumes "0 \<le> ns" and "ns < 1000000"
  shows "int_repr ns = Inr (digits (nat ns))"
proof -
  have "nat ns < 10 ^ 6" using assms by simp
  then have "length (digits (nat ns)) \<le> 6" by (rule length_digits_le) simp
  then show ?thesis using assms(1) by (simp add: int_repr_def py_str_def)
qed

lemma int_truediv_bounded:
  assumes a: "0 \<le> a" and b: "0 < b" and c: "1 \<le> c" and ac: "a \<le> c * b"
    and small: "2 * c < 2 ^ 1024"
  shows "\<exists>m s. int_truediv a b = Inr (Fin m s) \<and> 0 \<le> m \<and> fbound m s (2 * c)"
  using round_frac_bounded [OF a b c ac small] b by (auto simp: int_truediv_def)

lemma elapsed_ns_finite:
  assumes n: "int n \<le> B" and B: "1 \<le> B" "4 * B < 2 ^ 1024"
  shows "\<exists>m e. parse_elapsed_to_seconds (PStr (digits n @ u ''ns'')) = Inr (Fin m e)"
proof -
  have "int n \<le> B * 1" using n by simp
  from round_frac_bounded [OF _ zero_less_one B(1) this] B(2)
  obtain m s where r: "round_frac (int n) 1 = Fin m s" "0 \<le> m" "fbound m s (2 * B)" by auto
  have "\<exists>m' s'. float_div (Fin m s) 1000000000 = Fin m' s'"
    using B by (intro float_div_finite [OF r(2) r(3)]) simp_all
  then show ?thesis by (simp add: parse_ns_str r(1))
qed

lemma elapsed_ms_finite:
  assumes n: "int n \<le> B" and B: "1 \<le> B" "4 * B < 2 ^ 1024"
  shows "\<exists>m e. parse_elapsed_to_seconds (PStr (digits n @ u ''ms'')) = Inr (Fin m e)"
proof -
  have "int n \<le> B * 1" using n by simp
  from round_frac_bounded [OF _ zero_less_one B(1) this] B(2)
  obtain m s where r: "round_frac (int n) 1 = Fin m s" "0 \<le> m" "fbound m s (2 * B)" by auto
  have "\<exists>m' s'. float_div (Fin m s) 1000 = Fin m' s'"
    using B by (intro float_div_finite [OF r(2) r(3)]) simp_all
  then show ?thesis by (simp add: parse_ms_str r(1))
qed

lemma elapsed_s_finite:
  assumes n: "int n \<le> B * 100" and B: "1 \<le> B" "2 * B < 2 ^ 1024"
  shows "\<exists>m e. parse_elapsed_to_seconds
     (PStr (digits (n div 100) @ 46 # zero_pad 2 (digits (n mod 100)) @ u ''s'')) = Inr (Fin m e)"
proof -
  have h: "(0::int) < 100" by simp
  from round_frac_bounded [OF _ h B(1) n B(2)]
  obtain m s where r: "round_frac (int n) 100 = Fin m s" by auto
  then show ?thesis by (simp add: parse_s_str)
qed

lemma elapsed_m_finite:
  assumes n: "int n \<le> B * 100" and B: "1 \<le> B" "240 * B < 2 ^ 1024"
  shows "\<exists>m e. parse_elapsed_to_seconds
     (PStr (digits (n div 100) @ 46 # zero_pad 2 (digits (n mod 100)) @ u ''m'')) = Inr (Fin m e)"
proof -
  have h: "(0::int) < 100" by simp
  have "2 * B < 2 ^ 1024" using B by linarith
  from round_frac_bounded [OF _ h B(1) n this]
  obtain m s where r: "round_frac (int n) 100 = Fin m s" "0 \<le> m" "fbound m s (2 * B)" by auto
  have "\<exists>m' s'. float_mul (Fin m s) 60 = Fin m' s'"
    using B by (intro float_mul_finite [OF r(2) r(3)]) simp_all
  then show ?thesis by (simp add: parse_m_str r(1))
qed


lemma human_elapsed_minutes:
  assumes "60000000000 \<le> ns" and "int_truediv ns 60000000000 = Inr (Fin m e)" and "0 \<le> m"
  shows "human_elapsed ns
           = Inr (digits (scaled 2 m e div 100) @ 46 # zero_pad 2 (digits (scaled 2 m e mod 100))
                  @ u ''m'')"
  using assms(1) by (simp add: human_elapsed_def assms(2) format_f_2 [OF assms(3)])

lemma float_mul_nonneg:
  "0 \<le> e \<Longrightarrow> float_mul (Fin m e) k = round_frac (m * k * 2 ^ nat e) 1"
  by (simp add: float_mul_def)

lemma truediv_huge: "int_truediv (10 ^ 320) 60000000000 = Inl OverflowError"
  by (simp only: int_truediv_def round_huge) simp

lemma human_elapsed_huge: "human_elapsed (10 ^ 320) = Inl OverflowError"
  by (simp only: human_elapsed_def truediv_huge) simp

lemma truediv_large:
  "int_truediv (2 * 10 ^ 317) 60000000000 = Inr (Fin 5344448960023927 966)"
  by (simp only: int_truediv_def round_large) simp

lemma scaled_large:
  "int (scaled 2 5344448960023927 966) = 5344448960023927 * 2 ^ 966 * 100"
  by (simp add: scaled_def)

lemma ilog2_reread: "ilog2_frac (5344448960023927 * 2 ^ 966 * 100) 100 = 1018"
  by (simp add: ilog2_frac_def Let_def bit_length_numeral)

lemma rhe_reread:
  "rhe_frac (5344448960023927 * 2 ^ 966 * 100) (100 * 2 ^ nat (1018 - 52)) = 5344448960023927"
  by (rule rhe_frac_down) simp_all

lemma round_reread:
  "round_frac (5344448960023927 * 2 ^ 966 * 100) 100 = Fin 5344448960023927 966"
  by (subst round_frac_large [OF _ ilog2_reread _ rhe_reread]) simp_all

lemma ilog2_times60: "ilog2_frac (5344448960023927 * 60 * 2 ^ nat 966) 1 = 1024"
  by (simp add: ilog2_frac_def Let_def bit_length_numeral)

lemma rhe_times60:
  "rhe_frac (5344448960023927 * 60 * 2 ^ nat 966) (1 * 2 ^ nat (1024 - 52))
     = 5010420900022431 + 1"
  by (rule rhe_frac_up) simp_all

lemma round_times60: "round_frac (5344448960023927 * 60 * 2 ^ nat 966) 1 = PosInf"
  by (subst round_frac_large [OF _ ilog2_times60 _ rhe_times60]) simp_all

lemma float_mul_large: "float_mul (Fin 5344448960023927 966) 60 = PosInf"
proof -
  have "float_mul (Fin 5344448960023927 966) 60
          = round_frac (5344448960023927 * 60 * 2 ^ nat 966) 1"
    by (rule float_mul_nonneg) simp
  then show ?thesis by (simp only: round_times60)
qed


text \<open>
  Claim C9, for every duration a clock can give. For every integer \<open>0 \<le> ns < 10 ^ 300\<close>,
  \<^const>\<open>human_elapsed\<close> returns a string; the pattern of \<^const>\<open>parse_elapsed_to_seconds\<close>
  matches that string, stripped and lowered, with a unit among \<^verbatim>\<open>ns\<close>, \<^verbatim>\<open>ms\<close>, \<^verbatim>\<open>s\<close>, \<^verbatim>\<open>m\<close>;
  and the parser returns a finite double, neither NaN nor an infinity. The bound is
  needed: at \<open>10 ^ 320\<close> the division in \<^const>\<open>human_elapsed\<close> raises \<^verbatim>\<open>OverflowError\<close>, and
  at \<open>2 * 10 ^ 317\<close> the string is written but its minutes, times sixty, are infinite.
\<close>

theorem human_elapsed_parses:
  assumes ns: "0 \<le> ns" and small: "ns < 10 ^ 300"
  shows "\<exists>s g unit m e. human_elapsed ns = Inr s
           \<and> elapsed_re_match (py_lower (py_strip s)) = Some (g, unit)
           \<and> unit \<in> set elapsed_units
           \<and> parse_elapsed_to_seconds (PStr s) = Inr (Fin m e)"
proof -
  define B :: int where "B = 10 ^ 300"
  have B1: "1 \<le> B" and B2: "2 * B < 2 ^ 1024" and B3: "1 \<le> 3 * B" and B4: "4 * (3 * B) < 2 ^ 1024"
    and B5: "240 * (3 * B) < 2 ^ 1024" and B6: "2 * (3 * B) < 2 ^ 1024"
    by (simp_all add: B_def)
  have nsB: "ns \<le> B" using small by (simp add: B_def)
  consider (a) "ns < 1000000" | (b) "1000000 \<le> ns" "ns < 1000000000"
    | (c) "1000000000 \<le> ns" "ns < 60000000000" | (d) "60000000000 \<le> ns" by linarith
  then show ?thesis
  proof cases
    case a
    have h: "human_elapsed ns = Inr (digits (nat ns) @ u ''ns'')"
      using a by (simp add: human_elapsed_def int_repr_small [OF ns a])
    have "int (nat ns) \<le> 3 * B" using ns nsB B1 by simp
    from elapsed_ns_finite [OF this B3 B4] match_int_str [OF units_mem(1), of "nat ns"] h units_mem(1)
    show ?thesis by blast
  next
    case b
    have "ns \<le> B * 1000000" using nsB B1 ns by simp
    from int_truediv_bounded [OF ns _ B1 this B2]
    obtain m s where t: "int_truediv ns 1000000 = Inr (Fin m s)" "0 \<le> m" "fbound m s (2 * B)"
      by auto
    have h: "human_elapsed ns = Inr (digits (scaled 0 m s) @ u ''ms'')"
      using b by (simp add: human_elapsed_def t(1) format_f_0 [OF t(2)])
    have "int (scaled 0 m s) \<le> 3 * B" using scaled_bound [OF t(2) t(3), of 0] B1 by simp
    from elapsed_ms_finite [OF this B3 B4] match_int_str [OF units_mem(2), of "scaled 0 m s"] h
      units_mem(2)
    show ?thesis by blast
  next
    case c
    have "ns \<le> B * 1000000000" using nsB B1 ns by simp
    from int_truediv_bounded [OF ns _ B1 this B2]
    obtain m s where t: "int_truediv ns 1000000000 = Inr (Fin m s)" "0 \<le> m" "fbound m s (2 * B)"
      by auto
    define n where "n = scaled 2 m s"
    have h: "human_elapsed ns
               = Inr (digits (n div 100) @ 46 # zero_pad 2 (digits (n mod 100)) @ u ''s'')"
      using c by (simp add: human_elapsed_def t(1) format_f_2 [OF t(2)] n_def)
    have "int n \<le> 3 * B * 100" using scaled_bound [OF t(2) t(3), of 2] B1 by (simp add: n_def)
    from elapsed_s_finite [OF this B3 B6]
      match_frac_str [OF units_mem(3), of "n mod 100" "n div 100"] h units_mem(3)
    show ?thesis by (simp del: append.simps, blast?)
  next
    case d
    have "ns \<le> B * 60000000000" using nsB B1 ns by simp
    from int_truediv_bounded [OF ns _ B1 this B2]
    obtain m s where t: "int_truediv ns 60000000000 = Inr (Fin m s)" "0 \<le> m" "fbound m s (2 * B)"
      by auto
    define n where "n = scaled 2 m s"
    have h: "human_elapsed ns
               = Inr (digits (n div 100) @ 46 # zero_pad 2 (digits (n mod 100)) @ u ''m'')"
      using d by (simp add: human_elapsed_def t(1) format_f_2 [OF t(2)] n_def)
    have "int n \<le> 3 * B * 100" using scaled_bound [OF t(2) t(3), of 2] B1 by (simp add: n_def)
    from elapsed_m_finite [OF this B3 B5]
      match_frac_str [OF units_mem(4), of "n mod 100" "n div 100"] h units_mem(4)
    show ?thesis by (simp del: append.simps, blast?)
  qed
qed

theorem human_elapsed_parses_witness:
  "\<exists>s g unit m e. human_elapsed 90000000000 = Inr s
      \<and> elapsed_re_match (py_lower (py_strip s)) = Some (g, unit)
      \<and> unit \<in> set elapsed_units
      \<and> parse_elapsed_to_seconds (PStr s) = Inr (Fin m e)"
  using human_elapsed_parses [of 90000000000] by simp

theorem human_elapsed_counterexample:
  "human_elapsed (10 ^ 320) = Inl OverflowError
   \<and> (\<exists>s. human_elapsed (2 * 10 ^ 317) = Inr s
            \<and> parse_elapsed_to_seconds (PStr s) = Inr PosInf)"
proof -
  have ge: "(60000000000::int) \<le> 2 * 10 ^ 317" by simp
  have m0: "(0::int) \<le> 5344448960023927" by simp
  note h = human_elapsed_minutes [OF ge truediv_large m0]
  have "parse_elapsed_to_seconds
          (PStr (digits (scaled 2 5344448960023927 966 div 100)
                 @ 46 # zero_pad 2 (digits (scaled 2 5344448960023927 966 mod 100)) @ u ''m''))
        = Inr (float_mul (round_frac (int (scaled 2 5344448960023927 966)) 100) 60)"
    by (rule parse_m_str)
  also have "\<dots> = Inr PosInf" by (simp only: scaled_large round_reread float_mul_large)
  finally show ?thesis using h human_elapsed_huge by blast
qed

end
